theory Spec2Isabelle
  imports Complex_Main "HOL-Library.Multiset"
begin

section \<open>Data model of \<open>tetris.py\<close>\<close>

text \<open>
  The playfield is \<open>GRID_SIZE = (8, 20, 8)\<close>; \<open>grid[x][y][z]\<close> is \<open>None\<close> for an empty
  cell or an \<open>(r, g, b)\<close> tuple. A colour is stored and copied, never computed with.
  Python raises where an index is out of range or an attribute is read from \<open>None\<close>;
  every such raise is a value \<open>Inl e\<close> of the result type.
\<close>

type_synonym color = "real \<times> real \<times> real"
type_synonym offset = "int \<times> int \<times> int"
type_synonym grid = "color option list list list"

datatype error = IndexError | AttributeError | UnboundLocalError

type_synonym 'a result = "error + 'a"

definition rbind :: "'a result \<Rightarrow> ('a \<Rightarrow> 'b result) \<Rightarrow> 'b result" where
  "rbind m f = (case m of Inl e \<Rightarrow> Inl e | Inr x \<Rightarrow> f x)"

text \<open>A \<open>for\<close> loop whose body may raise: the first raise ends the loop.\<close>

fun rfold :: "('a \<Rightarrow> 's \<Rightarrow> 's result) \<Rightarrow> 'a list \<Rightarrow> 's \<Rightarrow> 's result" where
  "rfold f [] s = Inr s"
| "rfold f (x # xs) s = rbind (f x s) (rfold f xs)"

definition GRID_SIZE_0 :: nat where "GRID_SIZE_0 = 8"
definition GRID_SIZE_1 :: nat where "GRID_SIZE_1 = 20"
definition GRID_SIZE_2 :: nat where "GRID_SIZE_2 = 8"

definition FALL_INTERVAL_MS :: int where "FALL_INTERVAL_MS = 500"

definition CYBER_COLORS :: "color list" where
  "CYBER_COLORS =
     [(0, 1, 1), (1, 1, 0), (1, 647 / 1000, 0), (0, 0, 1),
      (1 / 2, 0, 1 / 2), (0, 1, 0), (1, 0, 0)]"

definition SHAPES_3D :: "offset list list" where
  "SHAPES_3D =
     [[(0,0,0), (1,0,0), (2,0,0), (3,0,0)],
      [(0,0,0), (1,0,0), (0,1,0), (1,1,0), (0,0,1), (1,0,1), (0,1,1), (1,1,1)],
      [(0,0,0), (1,0,0), (2,0,0), (2,1,0)],
      [(0,0,0), (1,0,0), (2,0,0), (0,1,0)],
      [(0,0,0), (1,0,0), (2,0,0), (1,1,0)],
      [(1,0,0), (2,0,0), (0,1,0), (1,1,0)],
      [(0,0,0), (1,0,0), (1,1,0), (2,1,0)]]"

datatype mode = STATE_LOADING | STATE_MAIN_MENU | STATE_PLAYING | STATE_PAUSED | STATE_GAME_OVER

record tetromino =
  shape :: "offset list"
  position :: "int \<times> int \<times> int"
  color :: color

text \<open>
  \<open>GameState\<close>. Of the high-score manager only the list of scores is kept (the dates and
  the file are input/output); the music manager is left out.
\<close>

record game_state =
  grid :: grid
  score :: int
  game_over :: bool
  last_piece :: "tetromino option"
  current_piece :: "tetromino option"
  next_piece :: "tetromino option"
  highscores :: "int list"
  is_new_highscore :: bool
  piece_bag :: "nat list"

text \<open>The module-level globals that the timer callback and the key handlers share.\<close>

record world =
  game :: game_state
  current_mode :: mode
  previous_time :: int
  time_accumulator_fall :: int

subsection \<open>The grid\<close>

text \<open>
  \<open>self.grid[x][y][z]\<close> read and written. At every place the source indexes the grid the
  three indices are non-negative (a \<open>range\<close> variable, or a coordinate already compared
  with 0), so an index is a \<open>nat\<close> and the only raise is the one past the end.
\<close>

definition grid_get :: "grid \<Rightarrow> nat \<Rightarrow> nat \<Rightarrow> nat \<Rightarrow> color option result" where
  "grid_get g x y z =
     (if x < length g then
        (if y < length (g ! x) then
           (if z < length (g ! x ! y) then Inr (g ! x ! y ! z) else Inl IndexError)
         else Inl IndexError)
      else Inl IndexError)"

definition grid_set :: "grid \<Rightarrow> nat \<Rightarrow> nat \<Rightarrow> nat \<Rightarrow> color option \<Rightarrow> grid result" where
  "grid_set g x y z v =
     (if x < length g then
        (if y < length (g ! x) then
           (if z < length (g ! x ! y) then Inr (g[x := (g ! x)[y := (g ! x ! y)[z := v]]])
            else Inl IndexError)
         else Inl IndexError)
      else Inl IndexError)"

text \<open>\<open>reset_grid\<close> builds the three nested comprehensions of \<open>None\<close>.\<close>

definition empty_grid :: grid where
  "empty_grid = replicate GRID_SIZE_0 (replicate GRID_SIZE_1 (replicate GRID_SIZE_2 None))"

definition reset_grid :: "game_state \<Rightarrow> game_state" where
  "reset_grid s = s\<lparr>grid := empty_grid, score := 0, is_new_highscore := False\<rparr>"

text \<open>The shape every grid of a \<open>GameState\<close> has: it is built by \<open>reset_grid\<close> only.\<close>

definition wf_grid :: "grid \<Rightarrow> bool" where
  "wf_grid g \<longleftrightarrow>
     length g = GRID_SIZE_0 \<and>
     list_all (\<lambda>col. length col = GRID_SIZE_1 \<and> list_all (\<lambda>row. length row = GRID_SIZE_2) col) g"

subsection \<open>Pieces\<close>

text \<open>
  \<open>Tetromino()\<close> picks a random shape, but every caller overwrites \<open>shape\<close> and \<open>color\<close>
  at once; what stays of the constructor is the spawn position.
\<close>

definition spawn_position :: "int \<times> int \<times> int" where
  "spawn_position = (int (GRID_SIZE_0 div 2), int GRID_SIZE_1 - 3, int (GRID_SIZE_2 div 2))"

definition move :: "tetromino \<Rightarrow> int \<Rightarrow> int \<Rightarrow> int \<Rightarrow> tetromino" where
  "move p dx dy dz =
     (case position p of (x, y, z) \<Rightarrow> p\<lparr>position := (x + dx, y + dy, z + dz)\<rparr>)"

text \<open>
  \<open>rotate\<close>: with an axis other than 0, 1, 2 no branch binds \<open>rotated\<close>, and the
  \<open>append\<close> of the first block raises.
\<close>

definition rotate_block :: "int \<Rightarrow> offset \<Rightarrow> offset result" where
  "rotate_block axis b =
     (case b of (x, y, z) \<Rightarrow>
        if axis = 0 then Inr (x, - z, y)
        else if axis = 1 then Inr (- z, y, x)
        else if axis = 2 then Inr (- y, x, z)
        else Inl UnboundLocalError)"

fun rotate_blocks :: "int \<Rightarrow> offset list \<Rightarrow> offset list result" where
  "rotate_blocks axis [] = Inr []"
| "rotate_blocks axis (b # bs) =
     rbind (rotate_block axis b) (\<lambda>r. rbind (rotate_blocks axis bs) (\<lambda>rs. Inr (r # rs)))"

definition rotate :: "tetromino \<Rightarrow> int \<Rightarrow> tetromino result" where
  "rotate p axis = rbind (rotate_blocks axis (shape p)) (\<lambda>rs. Inr (p\<lparr>shape := rs\<rparr>))"

definition clone :: "tetromino \<Rightarrow> tetromino" where
  "clone p = \<lparr>shape = shape p, position = position p, color = color p\<rparr>"

subsection \<open>Collision test\<close>

text \<open>
  The loop of \<open>check_collision\<close> over the blocks of the current piece, with its four
  early returns in the source's order.
\<close>

fun collision_loop :: "grid \<Rightarrow> int \<times> int \<times> int \<Rightarrow> offset list \<Rightarrow> bool result" where
  "collision_loop g pos [] = Inr False"
| "collision_loop g pos (b # bs) =
     (case pos of (px, py, pz) \<Rightarrow> case b of (ox, oy, oz) \<Rightarrow>
        let x = px + ox; y = py + oy; z = pz + oz in
        if x < 0 \<or> x \<ge> int GRID_SIZE_0 then Inr True
        else if y < 0 \<or> y \<ge> int GRID_SIZE_1 then Inr True
        else if z < 0 \<or> z \<ge> int GRID_SIZE_2 then Inr True
        else rbind (grid_get g (nat x) (nat y) (nat z))
               (\<lambda>c. if c \<noteq> None then Inr True else collision_loop g pos bs))"

definition check_collision :: "game_state \<Rightarrow> int \<times> int \<times> int \<Rightarrow> bool result" where
  "check_collision s pos =
     (case current_piece s of
        None \<Rightarrow> Inl AttributeError
      | Some p \<Rightarrow> collision_loop (grid s) pos (shape p))"

subsection \<open>Locking and clearing layers\<close>

text \<open>
  The first loop of \<open>lock_piece_and_clear\<close>: the colour of the piece is written into
  each cell of it that lies inside the grid; a cell outside is passed over.
\<close>

definition lock_block :: "int \<times> int \<times> int \<Rightarrow> color \<Rightarrow> offset \<Rightarrow> grid \<Rightarrow> grid result" where
  "lock_block cpos ccol b g =
     (case cpos of (cx, cy, cz) \<Rightarrow> case b of (ox, oy, oz) \<Rightarrow>
        let x = cx + ox; y = cy + oy; z = cz + oz in
        if 0 \<le> x \<and> x < int GRID_SIZE_0 \<and> 0 \<le> y \<and> y < int GRID_SIZE_1 \<and>
           0 \<le> z \<and> z < int GRID_SIZE_2
        then grid_set g (nat x) (nat y) (nat z) (Some ccol)
        else Inr g)"

definition lock_blocks :: "int \<times> int \<times> int \<Rightarrow> color \<Rightarrow> offset list \<Rightarrow> grid \<Rightarrow> grid result" where
  "lock_blocks cpos ccol bs g = rfold (lock_block cpos ccol) bs g"

text \<open>
  The test for a full layer: the two nested loops with their \<open>break\<close>s. The inner loop
  stops at the first empty cell, the outer one as soon as the flag is false.
\<close>

fun row_full :: "grid \<Rightarrow> nat \<Rightarrow> nat \<Rightarrow> nat list \<Rightarrow> bool result" where
  "row_full g x y [] = Inr True"
| "row_full g x y (z # zs) =
     rbind (grid_get g x y z) (\<lambda>c. if c = None then Inr False else row_full g x y zs)"

fun layer_full :: "grid \<Rightarrow> nat \<Rightarrow> nat list \<Rightarrow> bool result" where
  "layer_full g y [] = Inr True"
| "layer_full g y (x # xs) =
     rbind (row_full g x y [0..<GRID_SIZE_2])
       (\<lambda>full. if \<not> full then Inr False else layer_full g y xs)"

text \<open>\<open>self.grid[x][move_y][z] = self.grid[x][move_y + 1][z]\<close>\<close>

definition move_cell_down :: "nat \<Rightarrow> nat \<Rightarrow> nat \<Rightarrow> grid \<Rightarrow> grid result" where
  "move_cell_down move_y x z g =
     rbind (grid_get g x (move_y + 1) z) (\<lambda>v. grid_set g x move_y z v)"

definition move_layers_down :: "grid \<Rightarrow> nat \<Rightarrow> grid result" where
  "move_layers_down g y =
     rfold (\<lambda>move_y. rfold (\<lambda>x. rfold (move_cell_down move_y x) [0..<GRID_SIZE_2])
                        [0..<GRID_SIZE_0])
       [y..<GRID_SIZE_1 - 1] g"

definition clear_top_layer :: "grid \<Rightarrow> grid result" where
  "clear_top_layer g =
     rfold (\<lambda>x. rfold (\<lambda>z g'. grid_set g' x (GRID_SIZE_1 - 1) z None) [0..<GRID_SIZE_2])
       [0..<GRID_SIZE_0] g"

definition clear_layer :: "grid \<Rightarrow> nat \<Rightarrow> grid result" where
  "clear_layer g y = rbind (move_layers_down g y) clear_top_layer"

text \<open>
  The \<open>while y < GRID_SIZE[1]\<close> loop. It carries the grid, \<open>y\<close> and \<open>layers_cleared\<close>;
  \<open>None\<close> stands for a loop that does not end.
\<close>

partial_function (option) clear_loop :: "grid \<Rightarrow> nat \<Rightarrow> nat \<Rightarrow> (grid \<times> nat) result option" where
  "clear_loop g y layers_cleared =
     (if y < GRID_SIZE_1 then
        (case layer_full g y [0..<GRID_SIZE_0] of
           Inl e \<Rightarrow> Some (Inl e)
         | Inr full \<Rightarrow>
             if full then
               (case clear_layer g y of
                  Inl e \<Rightarrow> Some (Inl e)
                | Inr g' \<Rightarrow> clear_loop g' y (layers_cleared + 1))
             else clear_loop g (y + 1) layers_cleared)
      else Some (Inr (g, layers_cleared)))"

text \<open>The dictionary \<open>scores\<close> and \<open>scores.get(layers_cleared, layers_cleared * 100)\<close>.\<close>

definition scores :: "nat \<rightharpoonup> int" where
  "scores = [1 \<mapsto> 100, 2 \<mapsto> 300, 3 \<mapsto> 500, 4 \<mapsto> 800]"

definition layer_score :: "nat \<Rightarrow> int" where
  "layer_score layers_cleared =
     (case scores layers_cleared of Some v \<Rightarrow> v | None \<Rightarrow> int layers_cleared * 100)"

subsection \<open>Spawning\<close>

text \<open>\<open>list.pop()\<close> takes the last element and raises on an empty list.\<close>

definition pop :: "'a list \<Rightarrow> ('a \<times> 'a list) result" where
  "pop xs = (if xs = [] then Inl IndexError else Inr (last xs, butlast xs))"

text \<open>
  \<open>Tetromino()\<close> followed by the two assignments \<open>shape = list(SHAPES_3D[shape_index])\<close>
  and \<open>color = CYBER_COLORS[shape_index]\<close>.
\<close>

definition new_piece :: "nat \<Rightarrow> tetromino result" where
  "new_piece shape_index =
     (if shape_index < length SHAPES_3D then
        (if shape_index < length CYBER_COLORS then
           Inr \<lparr>shape = SHAPES_3D ! shape_index, position = spawn_position,
                color = CYBER_COLORS ! shape_index\<rparr>
         else Inl IndexError)
      else Inl IndexError)"

text \<open>
  \<open>spawn_new_piece\<close>. The argument \<open>shuffled\<close> is the order \<open>random.shuffle\<close> leaves
  \<open>list(range(len(SHAPES_3D)))\<close> in, should the bag be refilled: some permutation of
  0..6.
\<close>

definition spawn_new_piece :: "game_state \<Rightarrow> nat list \<Rightarrow> game_state result" where
  "spawn_new_piece s shuffled =
     (let s1 = (if piece_bag s = [] then s\<lparr>piece_bag := shuffled\<rparr> else s) in
      rbind
        (if current_piece s1 = None then
           rbind (pop (piece_bag s1)) (\<lambda>(shape_index, bag1).
           rbind (new_piece shape_index) (\<lambda>cur.
           rbind (pop bag1) (\<lambda>(shape_index', bag2).
           rbind (new_piece shape_index') (\<lambda>nxt.
             Inr (s1\<lparr>piece_bag := bag2, current_piece := Some cur, next_piece := Some nxt\<rparr>)))))
         else
           rbind (pop (piece_bag s1)) (\<lambda>(shape_index, bag1).
           rbind (new_piece shape_index) (\<lambda>nxt.
             Inr (s1\<lparr>piece_bag := bag1, current_piece := next_piece s1,
                     next_piece := Some nxt\<rparr>))))
        (\<lambda>s2.
           case current_piece s2 of
             None \<Rightarrow> Inl AttributeError
           | Some p \<Rightarrow>
               rbind (check_collision s2 (position p))
                 (\<lambda>hit. if hit then Inr (s2\<lparr>game_over := True\<rparr>) else Inr s2)))"

text \<open>\<open>lock_piece_and_clear\<close>, whole.\<close>

definition lock_piece_and_clear :: "game_state \<Rightarrow> nat list \<Rightarrow> game_state result option" where
  "lock_piece_and_clear s shuffled =
     (case current_piece s of
        None \<Rightarrow> Some (Inl AttributeError)
      | Some p \<Rightarrow>
          (case lock_blocks (position p) (color p) (shape p) (grid s) of
             Inl e \<Rightarrow> Some (Inl e)
           | Inr g1 \<Rightarrow>
               (case clear_loop g1 0 0 of
                  None \<Rightarrow> None
                | Some (Inl e) \<Rightarrow> Some (Inl e)
                | Some (Inr (g2, layers_cleared)) \<Rightarrow>
                    let s1 = s\<lparr>grid := g2, last_piece := Some (clone p)\<rparr>;
                        s2 = (if layers_cleared > 0
                              then s1\<lparr>score := score s1 + layer_score layers_cleared\<rparr>
                              else s1);
                        s3 = s2\<lparr>score := score s2 + int (length (shape p)) * 10\<rparr>
                    in Some (spawn_new_piece s3 shuffled))))"

subsection \<open>Modes and the timer callback\<close>

text \<open>\<open>HighScoreManager.add_score\<close> on the list of scores, \<open>MAX_HIGHSCORES = 10\<close>.\<close>

definition add_score :: "int list \<Rightarrow> int \<Rightarrow> bool \<times> int list" where
  "add_score hs sc =
     (if length hs < 10 \<or> (hs \<noteq> [] \<and> sc > Min (set hs))
      then (True, take 10 (rev (sort (hs @ [sc]))))
      else (False, hs))"

definition set_mode :: "mode \<Rightarrow> world \<Rightarrow> world" where
  "set_mode new_mode w =
     (let w1 = w\<lparr>current_mode := new_mode\<rparr> in
      if new_mode = STATE_GAME_OVER then
        (case add_score (highscores (game w1)) (score (game w1)) of
           (is_high, hs) \<Rightarrow>
             w1\<lparr>game := (game w1)\<lparr>highscores := hs, is_new_highscore := is_high\<rparr>\<rparr>)
      else if new_mode = STATE_MAIN_MENU then
        w1\<lparr>game := (reset_grid (game w1))\<lparr>score := 0, game_over := False, last_piece := None,
                     current_piece := None, next_piece := None\<rparr>\<rparr>
      else w1)"

text \<open>
  One gravity step, the body of \<open>if time_accumulator_fall >= FALL_INTERVAL_MS\<close> after the
  subtraction: the piece moves one cell down; if it then collides, its position is put
  back, it is locked, and the mode follows \<open>game_over\<close>.
\<close>

definition gravity_step :: "world \<Rightarrow> nat list \<Rightarrow> world result option" where
  "gravity_step w shuffled =
     (case current_piece (game w) of
        None \<Rightarrow> Some (Inr w)
      | Some p \<Rightarrow>
          let old_pos = position p;
              moved = move p 0 (- 1) 0;
              s1 = (game w)\<lparr>current_piece := Some moved\<rparr>
          in (case check_collision s1 (position moved) of
                Inl e \<Rightarrow> Some (Inl e)
              | Inr hit \<Rightarrow>
                  if hit then
                    (case lock_piece_and_clear
                            (s1\<lparr>current_piece := Some (moved\<lparr>position := old_pos\<rparr>)\<rparr>) shuffled of
                       None \<Rightarrow> None
                     | Some (Inl e) \<Rightarrow> Some (Inl e)
                     | Some (Inr s2) \<Rightarrow>
                         if game_over s2 then Some (Inr (set_mode STATE_GAME_OVER (w\<lparr>game := s2\<rparr>)))
                         else Some (Inr (w\<lparr>game := s2\<rparr>)))
                  else Some (Inr (w\<lparr>game := s1\<rparr>))))"

text \<open>
  \<open>game_loop\<close>: \<open>current_time\<close> is what \<open>glutGet(GLUT_ELAPSED_TIME)\<close> returns. The music
  events and the redisplay request do not touch the state kept here.
\<close>

definition game_loop :: "world \<Rightarrow> int \<Rightarrow> nat list \<Rightarrow> world result option" where
  "game_loop w current_time shuffled =
     (let delta_time = current_time - previous_time w;
          w1 = w\<lparr>previous_time := current_time\<rparr>
      in if current_mode w1 = STATE_PLAYING \<and> \<not> game_over (game w1) then
           (let w2 = w1\<lparr>time_accumulator_fall := time_accumulator_fall w1 + delta_time\<rparr> in
            if time_accumulator_fall w2 \<ge> FALL_INTERVAL_MS then
              gravity_step (w2\<lparr>time_accumulator_fall := time_accumulator_fall w2 - FALL_INTERVAL_MS\<rparr>)
                shuffled
            else Some (Inr w2))
         else Some (Inr w1))"

subsection \<open>Key handlers\<close>

text \<open>\<open>for _ in range(n): game_state.current_piece.rotate(axis)\<close>\<close>

fun rotate_times :: "nat \<Rightarrow> tetromino \<Rightarrow> int \<Rightarrow> tetromino result" where
  "rotate_times 0 p axis = Inr p"
| "rotate_times (Suc n) p axis = rbind (rotate p axis) (\<lambda>q. rotate_times n q axis)"

text \<open>
  The test that follows each rotation in \<open>keyboard\<close>: on a collision the position and
  the shape saved before the rotation are put back.
\<close>

definition restore_on_collision ::
    "game_state \<Rightarrow> int \<times> int \<times> int \<Rightarrow> offset list \<Rightarrow> game_state result" where
  "restore_on_collision s original_position original_shape =
     (case current_piece s of
        None \<Rightarrow> Inl AttributeError
      | Some q \<Rightarrow>
          rbind (check_collision s (position q))
            (\<lambda>hit. if hit
                    then Inr (s\<lparr>current_piece :=
                                 Some (q\<lparr>position := original_position, shape := original_shape\<rparr>)\<rparr>)
                    else Inr s))"

datatype key = Key_Q | Key_E | Key_R | Key_Other

text \<open>
  The rotation block of \<open>keyboard\<close>. It is reached in the mode \<open>STATE_PLAYING\<close> when the
  game is not over, a current piece exists and the key is none of W, A, S, D.
\<close>

definition keyboard_rotation :: "game_state \<Rightarrow> key \<Rightarrow> game_state result" where
  "keyboard_rotation s k =
     (case current_piece s of
        None \<Rightarrow> Inl AttributeError
      | Some p \<Rightarrow>
          let original_position = position p; original_shape = shape p in
          if k = Key_Q then
            rbind (rotate p 1) (\<lambda>q.
              restore_on_collision (s\<lparr>current_piece := Some q\<rparr>) original_position original_shape)
          else if k = Key_E then
            rbind (rotate_times 3 p 1) (\<lambda>q.
              restore_on_collision (s\<lparr>current_piece := Some q\<rparr>) original_position original_shape)
          else if k = Key_R then
            rbind (rotate p 2) (\<lambda>q.
              restore_on_collision (s\<lparr>current_piece := Some q\<rparr>) original_position original_shape)
          else Inr s)"

text \<open>
  \<open>move(dx, 0, dz)\<close>, the collision test, and on a collision \<open>move(rx, 0, rz)\<close>: the
  pattern of every branch of \<open>special_keys\<close> and of \<open>handle_wasd\<close>.
\<close>

definition move_then_test ::
    "game_state \<Rightarrow> int \<times> int \<Rightarrow> int \<times> int \<Rightarrow> (bool \<times> game_state) result" where
  "move_then_test s d r =
     (case current_piece s of
        None \<Rightarrow> Inl AttributeError
      | Some p \<Rightarrow>
          let moved = move p (fst d) 0 (snd d);
              s1 = s\<lparr>current_piece := Some moved\<rparr>
          in rbind (check_collision s1 (position moved))
               (\<lambda>hit. if hit
                       then Inr (True, s1\<lparr>current_piece := Some (move moved (fst r) 0 (snd r))\<rparr>)
                       else Inr (False, s1)))"

datatype special_key =
  GLUT_KEY_F1 | GLUT_KEY_UP | GLUT_KEY_DOWN | GLUT_KEY_LEFT | GLUT_KEY_RIGHT | GLUT_KEY_OTHER

text \<open>
  \<open>special_keys\<close>. The four integers are \<open>int(round(forward_x))\<close>, \<open>int(round(forward_z))\<close>,
  \<open>int(round(right_x))\<close> and \<open>int(round(right_z))\<close>, computed in floating point from the
  camera angle.
\<close>

definition special_keys :: "world \<Rightarrow> special_key \<Rightarrow> int \<Rightarrow> int \<Rightarrow> int \<Rightarrow> int \<Rightarrow> world result" where
  "special_keys w k fx fz rx rz =
     (if current_mode w = STATE_PLAYING \<and> \<not> game_over (game w) \<and> current_piece (game w) \<noteq> None
      then
        (if k = GLUT_KEY_F1 then Inr w
         else if k = GLUT_KEY_UP then
           rbind (move_then_test (game w) (fx, fz) (- fx, - fz)) (\<lambda>(hit, s). Inr (w\<lparr>game := s\<rparr>))
         else if k = GLUT_KEY_DOWN then
           rbind (move_then_test (game w) (- fx, - fz) (fx, fz)) (\<lambda>(hit, s). Inr (w\<lparr>game := s\<rparr>))
         else if k = GLUT_KEY_LEFT then
           rbind (move_then_test (game w) (- rx, - rz) (rx, rz)) (\<lambda>(hit, s). Inr (w\<lparr>game := s\<rparr>))
         else if k = GLUT_KEY_RIGHT then
           rbind (move_then_test (game w) (rx, rz) (- rx, - rz)) (\<lambda>(hit, s). Inr (w\<lparr>game := s\<rparr>))
         else Inr w)
      else Inr w)"

text \<open>
  \<open>handle_wasd\<close> from \<open>move_x, move_z\<close> on: the direction chosen from the key and the
  camera, and the two comparisons \<open>forward_x > 0\<close> and \<open>forward_z > 0\<close>, are floating
  point and come in as arguments.
\<close>

definition handle_wasd :: "world \<Rightarrow> int \<Rightarrow> int \<Rightarrow> bool \<Rightarrow> bool \<Rightarrow> world result" where
  "handle_wasd w move_x move_z forward_x_pos forward_z_pos =
     (if current_mode w \<noteq> STATE_PLAYING \<or> game_over (game w) \<or> current_piece (game w) = None
      then Inr w
      else if move_x \<noteq> 0 \<or> move_z \<noteq> 0 then
        rbind (move_then_test (game w) (move_x, move_z) (- move_x, - move_z)) (\<lambda>(hit, s).
          if hit then
            (let alt_move_x = (if move_x \<noteq> 0 then 0 else (if forward_x_pos then 1 else - 1));
                 alt_move_z = (if move_z \<noteq> 0 then 0 else (if forward_z_pos then 1 else - 1))
             in rbind (move_then_test s (alt_move_x, alt_move_z) (- alt_move_x, - alt_move_z))
                  (\<lambda>(hit', s'). Inr (w\<lparr>game := s'\<rparr>)))
          else Inr (w\<lparr>game := s\<rparr>))
      else Inr w)"

text \<open>
  The restart of \<open>keyboard\<close>: R in the mode \<open>STATE_GAME_OVER\<close>. (S in the main menu runs
  the same statements but for the last assignment, which \<open>reset_grid\<close> has made already.)
\<close>

definition keyboard_restart :: "world \<Rightarrow> nat list \<Rightarrow> world result" where
  "keyboard_restart w shuffled =
     rbind (spawn_new_piece
              ((reset_grid (game w))\<lparr>score := 0, game_over := False, current_piece := None,
                                     next_piece := None\<rparr>) shuffled)
       (\<lambda>s. Inr (set_mode STATE_PLAYING (w\<lparr>game := s\<lparr>is_new_highscore := False\<rparr>\<rparr>)))"

text \<open>\<open>GameState.__init__\<close>; \<open>hs\<close> is the list of scores read from the high-score file.\<close>

definition GameState_init :: "int list \<Rightarrow> game_state" where
  "GameState_init hs =
     \<lparr>grid = empty_grid, score = 0, game_over = False, last_piece = None,
      current_piece = None, next_piece = None, highscores = hs,
      is_new_highscore = False, piece_bag = []\<rparr>"

section \<open>Terms of the statements\<close>

text \<open>The current piece, were it \<open>q\<close>, collides where it stands.\<close>

definition piece_collides :: "game_state \<Rightarrow> tetromino \<Rightarrow> bool" where
  "piece_collides s q \<longleftrightarrow>
     check_collision (s\<lparr>current_piece := Some q\<rparr>) (position q) = Inr True"

text \<open>What \<open>new_piece\<close> builds for a shape index of the catalogue.\<close>

definition piece_of :: "nat \<Rightarrow> tetromino" where
  "piece_of i = \<lparr>shape = SHAPES_3D ! i, position = spawn_position, color = CYBER_COLORS ! i\<rparr>"

text \<open>
  Consecutive calls of \<open>spawn_new_piece\<close>, one per shuffle outcome, with the pieces each
  call has drawn from the bag: the new current and the new next piece at the very
  beginning, the new next piece otherwise.
\<close>

fun spawn_run :: "game_state \<Rightarrow> nat list list \<Rightarrow> (tetromino option list \<times> game_state) result" where
  "spawn_run s [] = Inr ([], s)"
| "spawn_run s (shuffled # rest) =
     rbind (spawn_new_piece s shuffled) (\<lambda>s'.
       rbind (spawn_run s' rest) (\<lambda>(drawn, s'').
         Inr ((if current_piece s = None then [current_piece s', next_piece s']
               else [next_piece s']) @ drawn, s'')))"

text \<open>
  The timer callback called again and again (\<open>glutTimerFunc(16, game_loop, 0)\<close>), with the
  clock reading and the shuffle outcome of each call.
\<close>

fun game_loop_run :: "world \<Rightarrow> (int \<times> nat list) list \<Rightarrow> world result option" where
  "game_loop_run w [] = Some (Inr w)"
| "game_loop_run w (c # rest) =
     (case game_loop w (fst c) (snd c) of
        None \<Rightarrow> None
      | Some (Inl e) \<Rightarrow> Some (Inl e)
      | Some (Inr w') \<Rightarrow> game_loop_run w' rest)"

text \<open>
  A grid of the right shape seen as a function of the three indices: the form in which
  the loops over the grid are specified below. A layer of such a function is full when
  none of its 8 x 8 cells is empty; \<open>shift_down F y\<close> is what clearing layer \<open>y\<close> makes
  of \<open>F\<close>.
\<close>

definition grid_is :: "grid \<Rightarrow> (nat \<Rightarrow> nat \<Rightarrow> nat \<Rightarrow> color option) \<Rightarrow> bool" where
  "grid_is g F \<longleftrightarrow> wf_grid g \<and> (\<forall>a<8. \<forall>b<20. \<forall>c<8. g ! a ! b ! c = F a b c)"

definition full_layer :: "(nat \<Rightarrow> nat \<Rightarrow> nat \<Rightarrow> color option) \<Rightarrow> nat \<Rightarrow> bool" where
  "full_layer F y \<longleftrightarrow> (\<forall>x<8. \<forall>z<8. F x y z \<noteq> None)"

definition shift_down :: "(nat \<Rightarrow> nat \<Rightarrow> nat \<Rightarrow> color option) \<Rightarrow> nat \<Rightarrow> nat \<Rightarrow> nat \<Rightarrow> nat \<Rightarrow> color option" where
  "shift_down F y = (\<lambda>a b c. if b < y then F a b c else if b < 19 then F a (b + 1) c else None)"

text \<open>
  The condition under which the key handlers are entered: the grid has its shape and,
  unless the game is over, the current piece does not collide where it stands.
\<close>

definition playing_ok :: "world \<Rightarrow> bool" where
  "playing_ok w \<longleftrightarrow>
     wf_grid (grid (game w)) \<and>
     (\<not> game_over (game w) \<longrightarrow>
        (\<forall>p. current_piece (game w) = Some p \<longrightarrow> \<not> piece_collides (game w) p))"

section \<open>Concrete grids and states\<close>

text \<open>The grid whose cells are given by a function, and the states of the examples.\<close>

definition grid_of :: "(nat \<Rightarrow> nat \<Rightarrow> nat \<Rightarrow> color option) \<Rightarrow> grid" where
  "grid_of F = map (\<lambda>x. map (\<lambda>y. map (\<lambda>z. F x y z) [0..<GRID_SIZE_2]) [0..<GRID_SIZE_1])
                 [0..<GRID_SIZE_0]"

definition I_piece :: tetromino where
  "I_piece = \<lparr>shape = SHAPES_3D ! 0, position = spawn_position, color = CYBER_COLORS ! 0\<rparr>"

definition I_state :: game_state where
  "I_state = (GameState_init [])\<lparr>current_piece := Some I_piece\<rparr>"

definition I_world :: world where
  "I_world = \<lparr>game = I_state, current_mode = STATE_PLAYING, previous_time = 0,
              time_accumulator_fall = 0\<rparr>"

definition layers_3_5 :: "nat \<Rightarrow> nat \<Rightarrow> nat \<Rightarrow> color option" where
  "layers_3_5 x y z =
     (if y = 3 \<or> y = 5 \<or> (x = 0 \<and> z = 0 \<and> (y = 4 \<or> y = 7)) then Some (1, 0, 0) else None)"

definition almost_full_layer :: "nat \<Rightarrow> nat \<Rightarrow> nat \<Rightarrow> color option" where
  "almost_full_layer x y z = (if y = 0 \<and> \<not> (z = 0 \<and> x < 4) then Some (1, 0, 0) else None)"

definition lock_test_state :: game_state where
  "lock_test_state =
     \<lparr>grid = grid_of almost_full_layer, score = 0, game_over = False, last_piece = None,
      current_piece = Some (I_piece\<lparr>position := (0, 0, 0)\<rparr>), next_piece = Some (piece_of 2),
      highscores = [], is_new_highscore = False, piece_bag = [3]\<rparr>"

definition blocked_cell :: "nat \<Rightarrow> nat \<Rightarrow> nat \<Rightarrow> color option" where
  "blocked_cell x y z = (if x = 4 \<and> y = 16 \<and> z = 4 then Some (1, 0, 0) else None)"

definition over_test_world :: world where
  "over_test_world =
     \<lparr>game = \<lparr>grid = grid_of blocked_cell, score = 0, game_over = False, last_piece = None,
               current_piece = Some I_piece, next_piece = Some (piece_of 2),
               highscores = [], is_new_highscore = False, piece_bag = [3]\<rparr>,
      current_mode = STATE_PLAYING, previous_time = 0, time_accumulator_fall = 0\<rparr>"

section \<open>Facts about the grid\<close>

lemma rbind_Inr [simp]: "rbind (Inr x) f = f x"
  by (simp add: rbind_def)

lemma rbind_Inl [simp]: "rbind (Inl e) f = Inl e"
  by (simp add: rbind_def)

lemma wf_grid_iff:
  "wf_grid g \<longleftrightarrow>
     length g = 8 \<and> (\<forall>x<8. length (g ! x) = 20 \<and> (\<forall>y<20. length (g ! x ! y) = 8))"
  by (auto simp: wf_grid_def GRID_SIZE_0_def GRID_SIZE_1_def GRID_SIZE_2_def
      list_all_length)

lemma wf_empty_grid: "wf_grid empty_grid"
  by (simp add: wf_grid_iff empty_grid_def GRID_SIZE_0_def GRID_SIZE_1_def GRID_SIZE_2_def)

lemma grid_get_wf:
  "wf_grid g \<Longrightarrow> x < 8 \<Longrightarrow> y < 20 \<Longrightarrow> z < 8 \<Longrightarrow> grid_get g x y z = Inr (g ! x ! y ! z)"
  by (simp add: wf_grid_iff grid_get_def)

lemma empty_grid_cell:
  "x < 8 \<Longrightarrow> y < 20 \<Longrightarrow> z < 8 \<Longrightarrow> empty_grid ! x ! y ! z = None"
  by (simp add: empty_grid_def GRID_SIZE_0_def GRID_SIZE_1_def GRID_SIZE_2_def)

lemmas GRID_SIZE_defs = GRID_SIZE_0_def GRID_SIZE_1_def GRID_SIZE_2_def

lemma grid_is_self: "wf_grid g \<Longrightarrow> grid_is g (\<lambda>a b c. g ! a ! b ! c)"
  by (simp add: grid_is_def)

lemma grid_is_wf: "grid_is g F \<Longrightarrow> wf_grid g"
  by (simp add: grid_is_def)

lemma grid_is_cell: "grid_is g F \<Longrightarrow> a < 8 \<Longrightarrow> b < 20 \<Longrightarrow> c < 8 \<Longrightarrow> g ! a ! b ! c = F a b c"
  by (simp add: grid_is_def)

lemma grid_is_cong:
  "grid_is g F \<Longrightarrow> (\<And>a b c. a < 8 \<Longrightarrow> b < 20 \<Longrightarrow> c < 8 \<Longrightarrow> F a b c = F' a b c) \<Longrightarrow> grid_is g F'"
  by (simp add: grid_is_def)

lemma grid_get_is:
  "grid_is g F \<Longrightarrow> x < 8 \<Longrightarrow> y < 20 \<Longrightarrow> z < 8 \<Longrightarrow> grid_get g x y z = Inr (F x y z)"
  by (simp add: grid_is_def grid_get_wf)

lemma grid_set_is:
  assumes "grid_is g F" "x < 8" "y < 20" "z < 8"
  shows "\<exists>g'. grid_set g x y z v = Inr g' \<and>
           grid_is g' (\<lambda>a b c. if a = x \<and> b = y \<and> c = z then v else F a b c)"
proof -
  from assms have wf: "length g = 8" "\<And>a. a < 8 \<Longrightarrow> length (g ! a) = 20"
    "\<And>a b. a < 8 \<Longrightarrow> b < 20 \<Longrightarrow> length (g ! a ! b) = 8"
    and cell: "\<And>a b c. a < 8 \<Longrightarrow> b < 20 \<Longrightarrow> c < 8 \<Longrightarrow> g ! a ! b ! c = F a b c"
    by (auto simp: grid_is_def wf_grid_iff)
  let ?g' = "g[x := (g ! x)[y := (g ! x ! y)[z := v]]]"
  have "grid_set g x y z v = Inr ?g'"
    using assms wf by (simp add: grid_set_def)
  moreover have "grid_is ?g' (\<lambda>a b c. if a = x \<and> b = y \<and> c = z then v else F a b c)"
    unfolding grid_is_def wf_grid_iff using assms(2-4) wf cell
    by (auto simp: nth_list_update)
  ultimately show ?thesis by blast
qed

lemma rfold_rule_aux:
  assumes step: "\<And>done x rest s. xs = done @ x # rest \<Longrightarrow> P done s \<Longrightarrow>
                   \<exists>s'. f x s = Inr s' \<and> P (done @ [x]) s'"
  shows "pre @ ys = xs \<Longrightarrow> P pre s \<Longrightarrow> \<exists>s'. rfold f ys s = Inr s' \<and> P xs s'"
proof (induction ys arbitrary: pre s)
  case Nil
  then show ?case by simp
next
  case (Cons y ys)
  from step[of pre y ys s] Cons.prems obtain s' where s': "f y s = Inr s'" "P (pre @ [y]) s'"
    by auto
  from Cons.IH[of "pre @ [y]" s'] Cons.prems(1) s'(2)
  obtain s'' where "rfold f ys s' = Inr s''" "P xs s''" by auto
  with s' show ?case by simp
qed

lemma rfold_rule:
  assumes "P [] s"
    and "\<And>done x rest s. xs = done @ x # rest \<Longrightarrow> P done s \<Longrightarrow>
           \<exists>s'. f x s = Inr s' \<and> P (done @ [x]) s'"
  shows "\<exists>s'. rfold f xs s = Inr s' \<and> P xs s'"
  using rfold_rule_aux[of xs P f "[]" xs s] assms by auto

lemma upt_split_mem:
  assumes "[i..<j] = done @ x # rest"
  shows "i \<le> x \<and> x < j \<and> (\<forall>d\<in>set done. d < x)"
proof -
  have "x \<in> set [i..<j]" by (simp add: assms)
  moreover have "sorted (done @ x # rest)" "distinct (done @ x # rest)"
    using assms sorted_upt[of i j] distinct_upt[of i j] by simp_all
  then have "\<forall>d\<in>set done. d < x"
    by (auto simp: sorted_append intro: le_neq_trans)
  ultimately show ?thesis by simp
qed

lemma lock_blocks_is:
  assumes "grid_is g F"
  shows "\<exists>g'. lock_blocks (cx, cy, cz) ccol bs g = Inr g' \<and>
           grid_is g' (\<lambda>a b c. if (\<exists>(ox, oy, oz) \<in> set bs.
                                     int a = cx + ox \<and> int b = cy + oy \<and> int c = cz + oz)
                                then Some ccol else F a b c)"
  unfolding lock_blocks_def
proof (rule rfold_rule[where P = "\<lambda>done g'. grid_is g' (\<lambda>a b c. if (\<exists>(ox, oy, oz) \<in> set done.
                                     int a = cx + ox \<and> int b = cy + oy \<and> int c = cz + oz)
                                then Some ccol else F a b c)"], goal_cases)
  case 1
  then show ?case using assms by simp
next
  case (2 "done" x rest s)
  obtain ox oy oz where x: "x = (ox, oy, oz)" by (cases x) auto
  let ?G = "\<lambda>a b c. if (\<exists>(ox, oy, oz) \<in> set done.
                                     int a = cx + ox \<and> int b = cy + oy \<and> int c = cz + oz)
                                then Some ccol else F a b c"
  show ?case
  proof (cases "0 \<le> cx + ox \<and> cx + ox < 8 \<and> 0 \<le> cy + oy \<and> cy + oy < 20 \<and> 0 \<le> cz + oz \<and> cz + oz < 8")
    case True
    then have "nat (cx + ox) < 8" "nat (cy + oy) < 20" "nat (cz + oz) < 8" by auto
    from grid_set_is[OF 2(2) this, of "Some ccol"] obtain g' where
      g': "grid_set s (nat (cx + ox)) (nat (cy + oy)) (nat (cz + oz)) (Some ccol) = Inr g'"
        "grid_is g' (\<lambda>a b c. if a = nat (cx + ox) \<and> b = nat (cy + oy) \<and> c = nat (cz + oz) then Some ccol else ?G a b c)"
      by blast
    have "grid_is g' (\<lambda>a b c. if (\<exists>(ox, oy, oz) \<in> set (done @ [x]).
                                     int a = cx + ox \<and> int b = cy + oy \<and> int c = cz + oz)
                                then Some ccol else F a b c)"
      using True by (intro grid_is_cong[OF g'(2)]) (auto simp: x)
    with g'(1) True show ?thesis
      by (simp add: lock_block_def x GRID_SIZE_defs)
  next
    case False
    have "grid_is s (\<lambda>a b c. if (\<exists>(ox, oy, oz) \<in> set (done @ [x]).
                                     int a = cx + ox \<and> int b = cy + oy \<and> int c = cz + oz)
                                then Some ccol else F a b c)"
      using False by (intro grid_is_cong[OF 2(2)]) (auto simp: x)
    with False show ?thesis
      by (auto simp add: lock_block_def x GRID_SIZE_defs)
  qed
qed

section \<open>Collision test\<close>

lemma collision_loop_iff:
  assumes "wf_grid g"
  shows "collision_loop g (px, py, pz) bs =
     Inr (\<exists>(ox, oy, oz) \<in> set bs.
            px + ox < 0 \<or> 8 \<le> px + ox \<or> py + oy < 0 \<or> 20 \<le> py + oy \<or>
            pz + oz < 0 \<or> 8 \<le> pz + oz \<or>
            g ! nat (px + ox) ! nat (py + oy) ! nat (pz + oz) \<noteq> None)"
proof (induction bs)
  case Nil
  show ?case by simp
next
  case (Cons b bs)
  obtain ox oy oz where b: "b = (ox, oy, oz)"
    by (cases b) auto
  show ?case
  proof (cases "0 \<le> px + ox \<and> px + ox < 8 \<and> 0 \<le> py + oy \<and> py + oy < 20 \<and>
                0 \<le> pz + oz \<and> pz + oz < 8")
    case True
    then have "grid_get g (nat (px + ox)) (nat (py + oy)) (nat (pz + oz)) =
        Inr (g ! nat (px + ox) ! nat (py + oy) ! nat (pz + oz))"
      using assms by (intro grid_get_wf) auto
    with True Cons.IH show ?thesis
      by (auto simp: b GRID_SIZE_0_def GRID_SIZE_1_def GRID_SIZE_2_def Let_def)
  next
    case False
    then show ?thesis
      by (auto simp: b GRID_SIZE_0_def GRID_SIZE_1_def GRID_SIZE_2_def Let_def)
  qed
qed

text \<open>
  C1. For every piece shape and every anchor, on the 8 x 20 x 8 grid of a game state
  \<open>check_collision\<close> returns (it does not raise), and it returns true if and only if some
  absolute cell (anchor + offset) has X outside [0,8), Y outside [0,20), Z outside [0,8),
  or is occupied in the grid; so it returns false exactly when every cell is in bounds
  and empty.
\<close>

theorem check_collision_iff:
  assumes "wf_grid (grid s)" and "current_piece s = Some p"
  shows "check_collision s (px, py, pz) =
     Inr (\<exists>(ox, oy, oz) \<in> set (shape p).
            px + ox < 0 \<or> 8 \<le> px + ox \<or> py + oy < 0 \<or> 20 \<le> py + oy \<or>
            pz + oz < 0 \<or> 8 \<le> pz + oz \<or>
            grid s ! nat (px + ox) ! nat (py + oy) ! nat (pz + oz) \<noteq> None)"
  using assms by (simp add: check_collision_def collision_loop_iff)

theorem check_collision_iff_witness:
  "check_collision I_state (4, 17, 4) = Inr False \<and>
   check_collision I_state (5, 17, 4) = Inr True"
  using check_collision_iff[of I_state I_piece 4 17 4]
    check_collision_iff[of I_state I_piece 5 17 4]
  by (simp add: I_state_def I_piece_def GameState_init_def wf_empty_grid empty_grid_cell
      SHAPES_3D_def)

section \<open>Locking\<close>

text \<open>
  C10. Locking writes the colour of the piece into exactly the cells of the piece that
  lie inside the grid, passes over the cells outside without raising, and leaves every
  other cell as it was (the grid before the layers are cleared).
\<close>

theorem lock_blocks_frame:
  assumes "wf_grid (grid s)" and "current_piece s = Some p" and "position p = (cx, cy, cz)"
  shows "\<exists>g'. lock_blocks (position p) (color p) (shape p) (grid s) = Inr g' \<and> wf_grid g' \<and>
           (\<forall>a<8. \<forall>b<20. \<forall>c<8.
              g' ! a ! b ! c =
                (if (\<exists>(ox, oy, oz) \<in> set (shape p).
                       int a = cx + ox \<and> int b = cy + oy \<and> int c = cz + oz)
                 then Some (color p) else grid s ! a ! b ! c))"
  using lock_blocks_is[OF grid_is_self[OF assms(1)], of cx cy cz "color p" "shape p"] assms(3)
  by (auto simp: grid_is_def)

theorem lock_blocks_frame_witness:
  "\<exists>g'. lock_blocks (5, 17, 4) (color I_piece) (shape I_piece) (grid I_state) = Inr g' \<and>
      g' ! 5 ! 17 ! 4 = Some (0, 1, 1) \<and> g' ! 7 ! 17 ! 4 = Some (0, 1, 1) \<and>
      g' ! 4 ! 17 ! 4 = None"
proof -
  let ?s = "I_state\<lparr>current_piece := Some (I_piece\<lparr>position := (5, 17, 4)\<rparr>)\<rparr>"
  have "wf_grid (grid ?s)"
    by (simp add: I_state_def GameState_init_def wf_empty_grid)
  from lock_blocks_frame[OF this, of "I_piece\<lparr>position := (5, 17, 4)\<rparr>" 5 17 4]
  show ?thesis
    by (auto simp: I_state_def I_piece_def GameState_init_def empty_grid_cell
        SHAPES_3D_def CYBER_COLORS_def)
qed

section \<open>Clearing layers\<close>

lemma row_full_is:
  assumes "grid_is g F" "x < 8" "y < 20" "\<forall>z\<in>set zs. z < 8"
  shows "row_full g x y zs = Inr (\<forall>z\<in>set zs. F x y z \<noteq> None)"
  using assms(4)
proof (induction zs)
  case Nil
  show ?case by simp
next
  case (Cons z zs)
  then show ?case
    using grid_get_is[OF assms(1-3), of z] by auto
qed

lemma layer_full_is_aux:
  assumes "grid_is g F" "y < 20" "\<forall>x\<in>set xs. x < 8"
  shows "layer_full g y xs = Inr (\<forall>x\<in>set xs. \<forall>z<8. F x y z \<noteq> None)"
  using assms(3)
proof (induction xs)
  case Nil
  show ?case by simp
next
  case (Cons x xs)
  have "row_full g x y [0..<GRID_SIZE_2] = Inr (\<forall>z<8. F x y z \<noteq> None)"
    using row_full_is[OF assms(1) _ assms(2), of x "[0..<8]"] Cons.prems
    by (auto simp: GRID_SIZE_defs)
  with Cons show ?case by auto
qed

lemma layer_full_is:
  assumes "grid_is g F" "y < 20"
  shows "layer_full g y [0..<GRID_SIZE_0] = Inr (full_layer F y)"
  using layer_full_is_aux[OF assms, of "[0..<8]"]
  by (auto simp: GRID_SIZE_defs full_layer_def)

lemma move_row_down_is:
  assumes "grid_is g F" "x < 8" "my < 19"
  shows "\<exists>g'. rfold (move_cell_down my x) [0..<GRID_SIZE_2] g = Inr g' \<and>
           grid_is g' (\<lambda>a b c. if a = x \<and> b = my then F a (b + 1) c else F a b c)"
proof -
  have "\<exists>g'. rfold (move_cell_down my x) [0..<8] g = Inr g' \<and>
          grid_is g' (\<lambda>a b c. if a = x \<and> b = my \<and> c \<in> set [0..<8] then F a (b + 1) c else F a b c)"
  proof (rule rfold_rule[where P = "\<lambda>done g'. grid_is g'
            (\<lambda>a b c. if a = x \<and> b = my \<and> c \<in> set done then F a (b + 1) c else F a b c)"],
         goal_cases)
    case 1
    show ?case using assms(1) by simp
  next
    case (2 "done" z rest s)
    then have z: "z < 8" using upt_split_mem[of 0 8 "done" z rest] by simp
    have get: "grid_get s x (my + 1) z = Inr (F x (my + 1) z)"
      using grid_get_is[OF 2(2) assms(2) _ z, of "my + 1"] assms(3) by simp
    from grid_set_is[OF 2(2) assms(2) _ z, of my "F x (my + 1) z"] assms(3)
    obtain g' where g': "grid_set s x my z (F x (my + 1) z) = Inr g'"
      "grid_is g' (\<lambda>a b c. if a = x \<and> b = my \<and> c = z then F x (my + 1) z
          else if a = x \<and> b = my \<and> c \<in> set done then F a (b + 1) c else F a b c)"
      by auto
    have "grid_is g' (\<lambda>a b c. if a = x \<and> b = my \<and> c \<in> set (done @ [z]) then F a (b + 1) c else F a b c)"
      by (rule grid_is_cong[OF g'(2)]) auto
    with g'(1) get show ?case by (simp add: move_cell_down_def)
  qed
  then obtain g' where g': "rfold (move_cell_down my x) [0..<8] g = Inr g'"
    "grid_is g' (\<lambda>a b c. if a = x \<and> b = my \<and> c \<in> set [0..<8] then F a (b + 1) c else F a b c)"
    by blast
  have "grid_is g' (\<lambda>a b c. if a = x \<and> b = my then F a (b + 1) c else F a b c)"
    by (rule grid_is_cong[OF g'(2)]) auto
  with g'(1) show ?thesis by (simp add: GRID_SIZE_defs)
qed

lemma move_layer_down_is:
  assumes "grid_is g F" "my < 19"
  shows "\<exists>g'. rfold (\<lambda>x. rfold (move_cell_down my x) [0..<GRID_SIZE_2]) [0..<GRID_SIZE_0] g = Inr g' \<and>
           grid_is g' (\<lambda>a b c. if b = my then F a (b + 1) c else F a b c)"
proof -
  have "\<exists>g'. rfold (\<lambda>x. rfold (move_cell_down my x) [0..<GRID_SIZE_2]) [0..<8] g = Inr g' \<and>
          grid_is g' (\<lambda>a b c. if a \<in> set [0..<8] \<and> b = my then F a (b + 1) c else F a b c)"
  proof (rule rfold_rule[where P = "\<lambda>done g'. grid_is g'
            (\<lambda>a b c. if a \<in> set done \<and> b = my then F a (b + 1) c else F a b c)"],
         goal_cases)
    case 1
    show ?case using assms(1) by simp
  next
    case (2 "done" x rest s)
    then have x: "x < 8" using upt_split_mem[of 0 8 "done" x rest] by simp
    from move_row_down_is[OF 2(2) x assms(2)]
    obtain g' where g': "rfold (move_cell_down my x) [0..<GRID_SIZE_2] s = Inr g'"
      "grid_is g' (\<lambda>a b c. if a = x \<and> b = my
          then (if a \<in> set done \<and> b + 1 = my then F a (b + 1 + 1) c else F a (b + 1) c)
          else if a \<in> set done \<and> b = my then F a (b + 1) c else F a b c)"
      by auto
    have "grid_is g' (\<lambda>a b c. if a \<in> set (done @ [x]) \<and> b = my then F a (b + 1) c else F a b c)"
      by (rule grid_is_cong[OF g'(2)]) auto
    with g'(1) show ?case by simp
  qed
  then obtain g' where g': "rfold (\<lambda>x. rfold (move_cell_down my x) [0..<GRID_SIZE_2]) [0..<8] g = Inr g'"
    "grid_is g' (\<lambda>a b c. if a \<in> set [0..<8] \<and> b = my then F a (b + 1) c else F a b c)"
    by blast
  have "grid_is g' (\<lambda>a b c. if b = my then F a (b + 1) c else F a b c)"
    by (rule grid_is_cong[OF g'(2)]) auto
  with g'(1) show ?thesis by (simp add: GRID_SIZE_defs)
qed

lemma move_layers_down_is:
  assumes "grid_is g F"
  shows "\<exists>g'. move_layers_down g y = Inr g' \<and>
           grid_is g' (\<lambda>a b c. if y \<le> b \<and> b < 19 then F a (b + 1) c else F a b c)"
proof -
  have "\<exists>g'. rfold (\<lambda>move_y. rfold (\<lambda>x. rfold (move_cell_down move_y x) [0..<GRID_SIZE_2])
                        [0..<GRID_SIZE_0]) [y..<19] g = Inr g' \<and>
          grid_is g' (\<lambda>a b c. if b \<in> set [y..<19] then F a (b + 1) c else F a b c)"
  proof (rule rfold_rule[where P = "\<lambda>done g'. grid_is g'
            (\<lambda>a b c. if b \<in> set done then F a (b + 1) c else F a b c)"],
         goal_cases)
    case 1
    show ?case using assms(1) by simp
  next
    case (2 "done" my rest s)
    then have my: "my < 19" "\<forall>d\<in>set done. d < my"
      using upt_split_mem[of y 19 "done" my rest] by simp_all
    from move_layer_down_is[OF 2(2) my(1)]
    obtain g' where g': "rfold (\<lambda>x. rfold (move_cell_down my x) [0..<GRID_SIZE_2]) [0..<GRID_SIZE_0] s = Inr g'"
      "grid_is g' (\<lambda>a b c. if b = my
          then (if b + 1 \<in> set done then F a (b + 1 + 1) c else F a (b + 1) c)
          else if b \<in> set done then F a (b + 1) c else F a b c)"
      by auto
    have "grid_is g' (\<lambda>a b c. if b \<in> set (done @ [my]) then F a (b + 1) c else F a b c)"
      using my(2) by (intro grid_is_cong[OF g'(2)]) auto
    with g'(1) show ?case by simp
  qed
  then show ?thesis by (simp add: move_layers_down_def GRID_SIZE_defs)
qed

lemma clear_row_is:
  assumes "grid_is g F" "x < 8"
  shows "\<exists>g'. rfold (\<lambda>z g'. grid_set g' x (GRID_SIZE_1 - 1) z None) [0..<GRID_SIZE_2] g = Inr g' \<and>
           grid_is g' (\<lambda>a b c. if a = x \<and> b = 19 then None else F a b c)"
proof -
  have "\<exists>g'. rfold (\<lambda>z g'. grid_set g' x 19 z None) [0..<8] g = Inr g' \<and>
          grid_is g' (\<lambda>a b c. if a = x \<and> b = 19 \<and> c \<in> set [0..<8] then None else F a b c)"
  proof (rule rfold_rule[where P = "\<lambda>done g'. grid_is g'
            (\<lambda>a b c. if a = x \<and> b = 19 \<and> c \<in> set done then None else F a b c)"],
         goal_cases)
    case 1
    show ?case using assms(1) by simp
  next
    case (2 "done" z rest s)
    then have z: "z < 8" using upt_split_mem[of 0 8 "done" z rest] by simp
    from grid_set_is[OF 2(2) assms(2) _ z, of 19 None]
    obtain g' where g': "grid_set s x 19 z None = Inr g'"
      "grid_is g' (\<lambda>a b c. if a = x \<and> b = 19 \<and> c = z then None
          else if a = x \<and> b = 19 \<and> c \<in> set done then None else F a b c)"
      by auto
    have "grid_is g' (\<lambda>a b c. if a = x \<and> b = 19 \<and> c \<in> set (done @ [z]) then None else F a b c)"
      by (rule grid_is_cong[OF g'(2)]) auto
    with g'(1) show ?case by simp
  qed
  then obtain g' where g': "rfold (\<lambda>z g'. grid_set g' x 19 z None) [0..<8] g = Inr g'"
    "grid_is g' (\<lambda>a b c. if a = x \<and> b = 19 \<and> c \<in> set [0..<8] then None else F a b c)"
    by blast
  have "grid_is g' (\<lambda>a b c. if a = x \<and> b = 19 then None else F a b c)"
    by (rule grid_is_cong[OF g'(2)]) auto
  with g'(1) show ?thesis by (simp add: GRID_SIZE_defs)
qed

lemma clear_top_layer_is:
  assumes "grid_is g F"
  shows "\<exists>g'. clear_top_layer g = Inr g' \<and>
           grid_is g' (\<lambda>a b c. if b = 19 then None else F a b c)"
proof -
  have "\<exists>g'. rfold (\<lambda>x. rfold (\<lambda>z g'. grid_set g' x (GRID_SIZE_1 - 1) z None) [0..<GRID_SIZE_2])
                [0..<8] g = Inr g' \<and>
          grid_is g' (\<lambda>a b c. if a \<in> set [0..<8] \<and> b = 19 then None else F a b c)"
  proof (rule rfold_rule[where P = "\<lambda>done g'. grid_is g'
            (\<lambda>a b c. if a \<in> set done \<and> b = 19 then None else F a b c)"],
         goal_cases)
    case 1
    show ?case using assms(1) by simp
  next
    case (2 "done" x rest s)
    then have x: "x < 8" using upt_split_mem[of 0 8 "done" x rest] by simp
    from clear_row_is[OF 2(2) x]
    obtain g' where g': "rfold (\<lambda>z g'. grid_set g' x (GRID_SIZE_1 - 1) z None) [0..<GRID_SIZE_2] s = Inr g'"
      "grid_is g' (\<lambda>a b c. if a = x \<and> b = 19 then None
          else if a \<in> set done \<and> b = 19 then None else F a b c)"
      by auto
    have "grid_is g' (\<lambda>a b c. if a \<in> set (done @ [x]) \<and> b = 19 then None else F a b c)"
      by (rule grid_is_cong[OF g'(2)]) auto
    with g'(1) show ?case by simp
  qed
  then obtain g' where g': "rfold (\<lambda>x. rfold (\<lambda>z g'. grid_set g' x (GRID_SIZE_1 - 1) z None) [0..<GRID_SIZE_2])
                [0..<8] g = Inr g'"
    "grid_is g' (\<lambda>a b c. if a \<in> set [0..<8] \<and> b = 19 then None else F a b c)"
    by blast
  have "grid_is g' (\<lambda>a b c. if b = 19 then None else F a b c)"
    by (rule grid_is_cong[OF g'(2)]) auto
  with g'(1) show ?thesis by (simp add: clear_top_layer_def GRID_SIZE_defs)
qed

lemma clear_layer_is:
  assumes "grid_is g F" and "y < 20"
  shows "\<exists>g'. clear_layer g y = Inr g' \<and> grid_is g' (shift_down F y)"
proof -
  from move_layers_down_is[OF assms(1), of y] obtain g1 where
    g1: "move_layers_down g y = Inr g1"
      "grid_is g1 (\<lambda>a b c. if y \<le> b \<and> b < 19 then F a (b + 1) c else F a b c)"
    by blast
  from clear_top_layer_is[OF g1(2)] obtain g2 where
    g2: "clear_top_layer g1 = Inr g2"
      "grid_is g2 (\<lambda>a b c. if b = 19 then None
          else if y \<le> b \<and> b < 19 then F a (b + 1) c else F a b c)"
    by blast
  have "grid_is g2 (shift_down F y)"
    unfolding shift_down_def using assms(2) by (intro grid_is_cong[OF g2(2)]) auto
  with g1(1) g2(1) show ?thesis by (simp add: clear_layer_def)
qed

lemma full_layer_shift_down:
  "full_layer (shift_down F y) b =
     (if b < y then full_layer F b else if b < 19 then full_layer F (b + 1) else False)"
  by (auto simp: full_layer_def shift_down_def intro: exI[of _ 0])

lemma clear_loop_done:
  "20 \<le> y \<Longrightarrow> clear_loop g y n = Some (Inr (g, n))"
  by (subst clear_loop.simps) (simp add: GRID_SIZE_defs)

lemma clear_loop_not_full:
  assumes "grid_is g F" "y < 20" "\<not> full_layer F y"
  shows "clear_loop g y n = clear_loop g (y + 1) n"
  using layer_full_is[OF assms(1,2)] assms(2,3)
  by (subst clear_loop.simps) (simp add: GRID_SIZE_defs)

lemma clear_loop_full:
  assumes "grid_is g F" "y < 20" "full_layer F y"
  shows "\<exists>g'. clear_layer g y = Inr g' \<and> grid_is g' (shift_down F y) \<and>
           clear_loop g y n = clear_loop g' y (n + 1)"
proof -
  from clear_layer_is[OF assms(1,2)] obtain g' where
    g': "clear_layer g y = Inr g'" "grid_is g' (shift_down F y)" by blast
  have "clear_loop g y n = clear_loop g' y (n + 1)"
    using layer_full_is[OF assms(1,2)] assms(2,3) g'(1)
    by (subst clear_loop.simps) (simp add: GRID_SIZE_defs)
  with g' show ?thesis by blast
qed

lemma clear_loop_skip:
  assumes "grid_is g F"
  shows "y \<le> y' \<Longrightarrow> y' \<le> 20 \<Longrightarrow> (\<forall>b. y \<le> b \<and> b < y' \<longrightarrow> \<not> full_layer F b) \<Longrightarrow>
         clear_loop g y n = clear_loop g y' n"
proof (induction "y' - y" arbitrary: y)
  case 0
  then show ?case by simp
next
  case (Suc k)
  then have "y < 20" "\<not> full_layer F y" by auto
  from clear_loop_not_full[OF assms this]
  have "clear_loop g y n = clear_loop g (y + 1) n" .
  also have "\<dots> = clear_loop g y' n"
    using Suc.hyps(1)[of "y + 1"] Suc.hyps(2) Suc.prems by auto
  finally show ?case .
qed

lemma count_full_shift_down:
  assumes "y < 20" "full_layer F y"
  shows "length (filter (full_layer (shift_down F y)) [y..<20]) <
         length (filter (full_layer F) [y..<20])"
proof -
  have split: "[y..<20] = [y..<19] @ [19]"
    using assms(1) upt_Suc_append[of y 19] by simp
  have top: "\<not> full_layer (shift_down F y) 19"
    using assms(1) by (simp add: full_layer_shift_down)
  have "filter (full_layer (shift_down F y)) [y..<19] =
        filter (\<lambda>b. full_layer F (Suc b)) [y..<19]"
    by (rule filter_cong) (auto simp: full_layer_shift_down)
  then have "length (filter (full_layer (shift_down F y)) [y..<19]) =
        length (filter (full_layer F) (map Suc [y..<19]))"
    by (simp add: filter_map comp_def)
  also have "map Suc [y..<19] = [Suc y..<20]"
    using map_Suc_upt[of y 19] by simp
  finally have "length (filter (full_layer (shift_down F y)) [y..<19]) =
        length (filter (full_layer F) [Suc y..<20])" .
  moreover have "length (filter (full_layer (shift_down F y)) [y..<20]) =
        length (filter (full_layer (shift_down F y)) [y..<19])"
    unfolding split using top by simp
  moreover have "[y..<20] = y # [Suc y..<20]"
    using assms(1) by (simp add: upt_conv_Cons)
  then have "length (filter (full_layer F) [y..<20]) =
        Suc (length (filter (full_layer F) [Suc y..<20]))"
    using assms(2) by simp
  ultimately show ?thesis by simp
qed

lemma clear_loop_total:
  assumes "grid_is g F"
  shows "\<exists>g' n' F'. clear_loop g y n = Some (Inr (g', n')) \<and> grid_is g' F'"
  using assms
proof (induction "length (filter (full_layer F) [y..<20]) + (20 - y)"
    arbitrary: g F y n rule: less_induct)
  case less
  show ?case
  proof (cases "y < 20")
    case False
    then show ?thesis using clear_loop_done[of y g n] less.prems by auto
  next
    case y: True
    show ?thesis
    proof (cases "full_layer F y")
      case True
      from clear_loop_full[OF less.prems y True, of n] obtain g1 where
        g1: "grid_is g1 (shift_down F y)" "clear_loop g y n = clear_loop g1 y (n + 1)"
        by blast
      from less.hyps[OF _ g1(1), of y "n + 1"] count_full_shift_down[OF y True] g1(2)
      show ?thesis by auto
    next
      case False
      have "[y..<20] = y # [Suc y..<20]"
        using y by (simp add: upt_conv_Cons)
      then have "length (filter (full_layer F) [Suc y..<20]) =
          length (filter (full_layer F) [y..<20])"
        using False by simp
      with less.hyps[OF _ less.prems, of "y + 1" n] y
        clear_loop_not_full[OF less.prems y False, of n]
      show ?thesis by auto
    qed
  qed
qed

lemma grid_is_grid_of: "grid_is (grid_of F) F"
  by (simp add: grid_is_def wf_grid_iff grid_of_def GRID_SIZE_defs)

lemma clear_loop_3_5:
  assumes g: "grid_is g F"
    and full: "\<forall>y<20. full_layer F y \<longleftrightarrow> y = 3 \<or> y = 5"
  shows "\<exists>g'. clear_loop g 0 0 = Some (Inr (g', 2)) \<and>
           grid_is g' (\<lambda>x y z. if y < 3 then F x y z else if y = 3 then F x 4 z
                               else if y < 18 then F x (y + 2) z else None)"
proof -
  have f3: "full_layer F 3" and f5: "full_layer F 5" and f4: "\<not> full_layer F 4"
    using full by simp_all
  have "clear_loop g 0 0 = clear_loop g 3 0"
    using clear_loop_skip[OF g, of 0 3 0] full by simp
  moreover from clear_loop_full[OF g _ f3, of 0] obtain g1 where
    g1: "grid_is g1 (shift_down F 3)" "clear_loop g 3 0 = clear_loop g1 3 (0 + 1)"
    by auto
  moreover have "clear_loop g1 3 (0 + 1) = clear_loop g1 (3 + 1) (0 + 1)"
    using f4 by (intro clear_loop_not_full[OF g1(1)]) (simp_all add: full_layer_shift_down)
  moreover have "full_layer (shift_down F 3) (3 + 1)"
    using f5 by (simp add: full_layer_shift_down)
  from clear_loop_full[OF g1(1) _ this, of "0 + 1"] obtain g2 where
    g2: "grid_is g2 (shift_down (shift_down F 3) (3 + 1))"
      "clear_loop g1 (3 + 1) (0 + 1) = clear_loop g2 (3 + 1) (0 + 1 + 1)"
    by auto
  moreover have "clear_loop g2 (3 + 1) (0 + 1 + 1) = clear_loop g2 20 (0 + 1 + 1)"
    using full by (intro clear_loop_skip[OF g2(1)]) (auto simp: full_layer_shift_down)
  moreover have "clear_loop g2 20 (0 + 1 + 1) = Some (Inr (g2, 2))"
    by (simp add: clear_loop_done)
  moreover have "grid_is g2 (\<lambda>x y z. if y < 3 then F x y z else if y = 3 then F x 4 z
                               else if y < 18 then F x (y + 2) z else None)"
    by (rule grid_is_cong[OF g2(1)]) (auto simp: shift_down_def)
  ultimately show ?thesis by auto
qed

lemma full_layer_self:
  "full_layer (\<lambda>a b c. g ! a ! b ! c) y \<longleftrightarrow> (\<forall>x<8. \<forall>z<8. g ! x ! y ! z \<noteq> None)"
  by (simp add: full_layer_def)

text \<open>
  C2. The clearing loop of \<open>lock_piece_and_clear\<close> runs from \<open>y = 0\<close> upwards and ends
  above the top layer. A layer is full iff each of its 8 x 8 cells is occupied. At a
  layer that is not full the loop goes on to \<open>y + 1\<close>. At a full layer it adds one to the
  count, moves every layer above down by one, empties layer 19, and looks at the same
  \<open>y\<close> again. On a grid where exactly the layers 3 and 5 are full the loop returns the
  count 2; the layers below 3 stay, layer 4 has moved to 3, the layers 6..19 have moved
  down by two, and the layers 18 and 19 are empty.
\<close>

theorem clear_loop_layers:
  assumes "wf_grid g"
  shows "(\<forall>y n. 20 \<le> y \<longrightarrow> clear_loop g y n = Some (Inr (g, n))) \<and>
    (\<forall>y<20. layer_full g y [0..<GRID_SIZE_0] = Inr (\<forall>x<8. \<forall>z<8. g ! x ! y ! z \<noteq> None)) \<and>
    (\<forall>y n. y < 20 \<and> \<not> (\<forall>x<8. \<forall>z<8. g ! x ! y ! z \<noteq> None) \<longrightarrow>
       clear_loop g y n = clear_loop g (y + 1) n) \<and>
    (\<forall>y n. y < 20 \<and> (\<forall>x<8. \<forall>z<8. g ! x ! y ! z \<noteq> None) \<longrightarrow>
       (\<exists>g'. clear_layer g y = Inr g' \<and> wf_grid g' \<and>
          (\<forall>x<8. \<forall>b<20. \<forall>z<8.
             g' ! x ! b ! z =
               (if b < y then g ! x ! b ! z else if b < 19 then g ! x ! (b + 1) ! z else None)) \<and>
          clear_loop g y n = clear_loop g' y (n + 1))) \<and>
    ((\<forall>y<20. (\<forall>x<8. \<forall>z<8. g ! x ! y ! z \<noteq> None) \<longleftrightarrow> (y = 3 \<or> y = 5)) \<longrightarrow>
       (\<exists>g'. clear_loop g 0 0 = Some (Inr (g', 2)) \<and> wf_grid g' \<and>
          (\<forall>x<8. \<forall>y<20. \<forall>z<8.
             g' ! x ! y ! z =
               (if y < 3 then g ! x ! y ! z else if y = 3 then g ! x ! 4 ! z
                else if y < 18 then g ! x ! (y + 2) ! z else None))))"
proof -
  let ?F = "\<lambda>a b c. g ! a ! b ! c"
  have g: "grid_is g ?F" by (rule grid_is_self[OF assms])
  have c1: "\<forall>y n. 20 \<le> y \<longrightarrow> clear_loop g y n = Some (Inr (g, n))"
    by (simp add: clear_loop_done)
  have c2: "\<forall>y<20. layer_full g y [0..<GRID_SIZE_0] = Inr (\<forall>x<8. \<forall>z<8. g ! x ! y ! z \<noteq> None)"
    using layer_full_is[OF g] by (simp add: full_layer_self)
  have c3: "\<forall>y n. y < 20 \<and> \<not> (\<forall>x<8. \<forall>z<8. g ! x ! y ! z \<noteq> None) \<longrightarrow>
       clear_loop g y n = clear_loop g (y + 1) n"
    using clear_loop_not_full[OF g] by (simp add: full_layer_self)
  have c4: "\<forall>y n. y < 20 \<and> (\<forall>x<8. \<forall>z<8. g ! x ! y ! z \<noteq> None) \<longrightarrow>
       (\<exists>g'. clear_layer g y = Inr g' \<and> wf_grid g' \<and>
          (\<forall>x<8. \<forall>b<20. \<forall>z<8.
             g' ! x ! b ! z =
               (if b < y then g ! x ! b ! z else if b < 19 then g ! x ! (b + 1) ! z else None)) \<and>
          clear_loop g y n = clear_loop g' y (n + 1))"
  proof (intro allI impI)
    fix y n
    assume a: "y < 20 \<and> (\<forall>x<8. \<forall>z<8. g ! x ! y ! z \<noteq> None)"
    then have "full_layer ?F y" by (simp add: full_layer_self)
    from clear_loop_full[OF g _ this, of n] a obtain g' where
      g': "clear_layer g y = Inr g'" "grid_is g' (shift_down ?F y)"
        "clear_loop g y n = clear_loop g' y (n + 1)"
      by blast
    from g'(2) have "wf_grid g'"
      and "\<forall>x<8. \<forall>b<20. \<forall>z<8. g' ! x ! b ! z = shift_down ?F y x b z"
      by (simp_all add: grid_is_def)
    with g'(1,3) show "\<exists>g'. clear_layer g y = Inr g' \<and> wf_grid g' \<and>
          (\<forall>x<8. \<forall>b<20. \<forall>z<8.
             g' ! x ! b ! z =
               (if b < y then g ! x ! b ! z else if b < 19 then g ! x ! (b + 1) ! z else None)) \<and>
          clear_loop g y n = clear_loop g' y (n + 1)"
      by (auto simp: shift_down_def)
  qed
  have c5: "(\<forall>y<20. (\<forall>x<8. \<forall>z<8. g ! x ! y ! z \<noteq> None) \<longleftrightarrow> (y = 3 \<or> y = 5)) \<longrightarrow>
       (\<exists>g'. clear_loop g 0 0 = Some (Inr (g', 2)) \<and> wf_grid g' \<and>
          (\<forall>x<8. \<forall>y<20. \<forall>z<8.
             g' ! x ! y ! z =
               (if y < 3 then g ! x ! y ! z else if y = 3 then g ! x ! 4 ! z
                else if y < 18 then g ! x ! (y + 2) ! z else None)))"
  proof
    assume "\<forall>y<20. (\<forall>x<8. \<forall>z<8. g ! x ! y ! z \<noteq> None) \<longleftrightarrow> (y = 3 \<or> y = 5)"
    then have "\<forall>y<20. full_layer ?F y \<longleftrightarrow> y = 3 \<or> y = 5"
      by (simp add: full_layer_self)
    from clear_loop_3_5[OF g this] show "\<exists>g'. clear_loop g 0 0 = Some (Inr (g', 2)) \<and> wf_grid g' \<and>
          (\<forall>x<8. \<forall>y<20. \<forall>z<8.
             g' ! x ! y ! z =
               (if y < 3 then g ! x ! y ! z else if y = 3 then g ! x ! 4 ! z
                else if y < 18 then g ! x ! (y + 2) ! z else None))"
      by (auto simp: grid_is_def)
  qed
  from c1 c2 c3 c4 c5 show ?thesis by blast
qed

lemma layers_3_5_full: "\<forall>y<20. full_layer layers_3_5 y \<longleftrightarrow> y = 3 \<or> y = 5"
proof (intro allI impI iffI)
  fix y :: nat
  assume "full_layer layers_3_5 y"
  then have "layers_3_5 1 y 0 \<noteq> None" by (simp add: full_layer_def)
  then show "y = 3 \<or> y = 5" by (simp add: layers_3_5_def split: if_splits)
next
  fix y :: nat
  assume "y = 3 \<or> y = 5"
  then show "full_layer layers_3_5 y" by (auto simp: full_layer_def layers_3_5_def)
qed

theorem clear_loop_layers_witness:
  "\<exists>g'. clear_loop (grid_of layers_3_5) 0 0 = Some (Inr (g', 2)) \<and>
      g' ! 0 ! 3 ! 0 = Some (1, 0, 0) \<and> g' ! 1 ! 3 ! 0 = None \<and>
      g' ! 0 ! 5 ! 0 = Some (1, 0, 0) \<and> g' ! 1 ! 5 ! 0 = None \<and>
      g' ! 0 ! 18 ! 0 = None \<and> g' ! 0 ! 19 ! 0 = None"
proof -
  let ?g = "grid_of layers_3_5"
  have g: "grid_is ?g layers_3_5" by (rule grid_is_grid_of)
  then have wf: "wf_grid ?g" by (rule grid_is_wf)
  have cells: "\<And>x y z. x < 8 \<Longrightarrow> y < 20 \<Longrightarrow> z < 8 \<Longrightarrow> ?g ! x ! y ! z = layers_3_5 x y z"
    using g by (rule grid_is_cell)
  have "\<forall>y<20. (\<forall>x<8. \<forall>z<8. ?g ! x ! y ! z \<noteq> None) \<longleftrightarrow> (y = 3 \<or> y = 5)"
    using layers_3_5_full by (simp add: full_layer_def cells)
  with clear_loop_layers[OF wf] obtain g' where
    g': "clear_loop ?g 0 0 = Some (Inr (g', 2))"
      "\<forall>x<8. \<forall>y<20. \<forall>z<8.
             g' ! x ! y ! z =
               (if y < 3 then ?g ! x ! y ! z else if y = 3 then ?g ! x ! 4 ! z
                else if y < 18 then ?g ! x ! (y + 2) ! z else None)"
    by blast
  from g'(2) have "g' ! 0 ! 3 ! 0 = Some (1, 0, 0)" "g' ! 1 ! 3 ! 0 = None"
      "g' ! 0 ! 5 ! 0 = Some (1, 0, 0)" "g' ! 1 ! 5 ! 0 = None"
      "g' ! 0 ! 18 ! 0 = None" "g' ! 0 ! 19 ! 0 = None"
    by (simp_all add: cells layers_3_5_def)
  with g'(1) show ?thesis by blast
qed

section \<open>Rotation\<close>

lemma rotate_blocks_y:
  "rotate_blocks 1 bs = Inr (map (\<lambda>(x, y, z). (- z, y, x)) bs)"
  by (induction bs) (auto simp: rotate_block_def)

lemma rotate_blocks_z:
  "rotate_blocks 2 bs = Inr (map (\<lambda>(x, y, z). (- y, x, z)) bs)"
  by (induction bs) (auto simp: rotate_block_def)

lemma rotate_y: "rotate p 1 = Inr (p\<lparr>shape := map (\<lambda>(x, y, z). (- z, y, x)) (shape p)\<rparr>)"
  by (simp add: rotate_def rotate_blocks_y)

lemma rotate_z: "rotate p 2 = Inr (p\<lparr>shape := map (\<lambda>(x, y, z). (- y, x, z)) (shape p)\<rparr>)"
  by (simp add: rotate_def rotate_blocks_z)

lemma rotate_times_3_y:
  "rotate_times 3 p 1 = Inr (p\<lparr>shape := map (\<lambda>(x, y, z). (z, y, - x)) (shape p)\<rparr>)"
  by (simp add: eval_nat_numeral rotate_y comp_def case_prod_unfold)

text \<open>
  C9. A rotation about the Y axis replaces each offset (x, y, z) by (-z, y, x). Four of
  them in a row give back the offset list exactly; three of them replace (x, y, z) by
  (z, y, -x), the inverse quarter turn, so that one more rotation, before or after,
  restores the piece.
\<close>

theorem rotate_y_four_times:
  "rotate p 1 = Inr (p\<lparr>shape := map (\<lambda>(x, y, z). (- z, y, x)) (shape p)\<rparr>) \<and>
   rotate_times 4 p 1 = Inr p \<and>
   rotate_times 3 p 1 = Inr (p\<lparr>shape := map (\<lambda>(x, y, z). (z, y, - x)) (shape p)\<rparr>) \<and>
   rbind (rotate_times 3 p 1) (\<lambda>q. rotate q 1) = Inr p \<and>
   rbind (rotate p 1) (\<lambda>q. rotate_times 3 q 1) = Inr p"
  by (simp add: eval_nat_numeral rotate_y comp_def case_prod_unfold)

theorem rotate_y_four_times_witness:
  "rotate_times 4 I_piece 1 = Inr I_piece \<and>
   rotate I_piece 1 =
     Inr (I_piece\<lparr>shape := [(0, 0, 0), (0, 0, 1), (0, 0, 2), (0, 0, 3)]\<rparr>)"
  using rotate_y_four_times[of I_piece]
  by (simp add: I_piece_def SHAPES_3D_def)

section \<open>Moves and rotations that are taken back\<close>

lemma check_collision_piece:
  assumes "wf_grid (grid s)"
  shows "check_collision (s\<lparr>current_piece := Some q\<rparr>) (position q) = Inr (piece_collides s q)"
proof -
  obtain px py pz where pos: "position q = (px, py, pz)"
    by (cases "position q") auto
  from collision_loop_iff[OF assms, of px py pz "shape q"]
  obtain b where "collision_loop (grid s) (position q) (shape q) = Inr b"
    unfolding pos by blast
  then show ?thesis
    by (auto simp: piece_collides_def check_collision_def)
qed

lemma current_piece_same: "current_piece s = Some p \<Longrightarrow> s\<lparr>current_piece := Some p\<rparr> = s"
  by (cases s) auto

lemma move_back: "move (move p dx dy dz) (- dx) (- dy) (- dz) = p"
  by (cases p, cases "position p") (auto simp: move_def)

lemma restore_on_collision_eq:
  assumes "wf_grid (grid s)"
  shows "restore_on_collision (s\<lparr>current_piece := Some q\<rparr>) pos0 sh0 =
     Inr (s\<lparr>current_piece :=
             Some (if piece_collides s q then q\<lparr>position := pos0, shape := sh0\<rparr> else q)\<rparr>)"
  using check_collision_piece[OF assms, of q]
  by (simp add: restore_on_collision_def)

lemma move_then_test_eq:
  assumes "wf_grid (grid s)" "current_piece s = Some p"
  shows "move_then_test s (dx, dz) (- dx, - dz) =
     Inr (piece_collides s (move p dx 0 dz),
          s\<lparr>current_piece :=
               Some (if piece_collides s (move p dx 0 dz) then p else move p dx 0 dz)\<rparr>)"
  using check_collision_piece[OF assms(1), of "move p dx 0 dz"] assms(2)
    move_back[of p dx 0 dz]
  by (simp add: move_then_test_def Let_def)

lemma keyboard_rotation_eq:
  assumes "wf_grid (grid s)" "current_piece s = Some p"
  shows "keyboard_rotation s k =
     Inr (s\<lparr>current_piece := Some
       (if k = Key_Q then
          (let r = p\<lparr>shape := map (\<lambda>(x, y, z). (- z, y, x)) (shape p)\<rparr>
           in if piece_collides s r then p else r)
        else if k = Key_E then
          (let r = p\<lparr>shape := map (\<lambda>(x, y, z). (z, y, - x)) (shape p)\<rparr>
           in if piece_collides s r then p else r)
        else if k = Key_R then
          (let r = p\<lparr>shape := map (\<lambda>(x, y, z). (- y, x, z)) (shape p)\<rparr>
           in if piece_collides s r then p else r)
        else p)\<rparr>)"
  using assms
  by (cases k)
     (simp_all add: keyboard_rotation_def Let_def rotate_y rotate_z rotate_times_3_y
        restore_on_collision_eq current_piece_same)

lemma special_keys_eq:
  assumes "wf_grid (grid (game w))" "current_mode w = STATE_PLAYING" "\<not> game_over (game w)"
    "current_piece (game w) = Some p"
  shows "special_keys w k fx fz rx rz =
     Inr (w\<lparr>game := (game w)\<lparr>current_piece := Some
       (if k = GLUT_KEY_UP then
          (let r = move p fx 0 fz in if piece_collides (game w) r then p else r)
        else if k = GLUT_KEY_DOWN then
          (let r = move p (- fx) 0 (- fz) in if piece_collides (game w) r then p else r)
        else if k = GLUT_KEY_LEFT then
          (let r = move p (- rx) 0 (- rz) in if piece_collides (game w) r then p else r)
        else if k = GLUT_KEY_RIGHT then
          (let r = move p rx 0 rz in if piece_collides (game w) r then p else r)
        else p)\<rparr>\<rparr>)"
  using assms move_then_test_eq[OF assms(1,4), of fx fz]
    move_then_test_eq[OF assms(1,4), of "- fx" "- fz"]
    move_then_test_eq[OF assms(1,4), of "- rx" "- rz"]
    move_then_test_eq[OF assms(1,4), of rx rz]
  by (cases k) (simp_all add: special_keys_def Let_def current_piece_same)

lemma handle_wasd_eq:
  assumes "wf_grid (grid (game w))" "current_mode w = STATE_PLAYING" "\<not> game_over (game w)"
    "current_piece (game w) = Some p"
  shows "handle_wasd w mx mz fxp fzp =
     Inr (w\<lparr>game := (game w)\<lparr>current_piece := Some
       (if mx \<noteq> 0 \<or> mz \<noteq> 0 then
          (let r = move p mx 0 mz;
               r' = move p (if mx \<noteq> 0 then 0 else if fxp then 1 else - 1) 0
                           (if mz \<noteq> 0 then 0 else if fzp then 1 else - 1)
           in if \<not> piece_collides (game w) r then r
              else if \<not> piece_collides (game w) r' then r' else p)
        else p)\<rparr>\<rparr>)"
proof (cases "mx \<noteq> 0 \<or> mz \<noteq> 0")
  case False
  with assms show ?thesis by (simp add: handle_wasd_def current_piece_same)
next
  case True
  let ?ax = "if mx \<noteq> 0 then 0 else if fxp then 1 else - 1 :: int"
  let ?az = "if mz \<noteq> 0 then 0 else if fzp then 1 else - 1 :: int"
  have first: "move_then_test (game w) (mx, mz) (- mx, - mz) =
     Inr (piece_collides (game w) (move p mx 0 mz),
          (game w)\<lparr>current_piece :=
               Some (if piece_collides (game w) (move p mx 0 mz) then p else move p mx 0 mz)\<rparr>)"
    by (rule move_then_test_eq[OF assms(1,4)])
  have second: "move_then_test (game w) (?ax, ?az) (- ?ax, - ?az) =
     Inr (piece_collides (game w) (move p ?ax 0 ?az),
          (game w)\<lparr>current_piece :=
               Some (if piece_collides (game w) (move p ?ax 0 ?az) then p else move p ?ax 0 ?az)\<rparr>)"
    by (rule move_then_test_eq[OF assms(1,4)])
  show ?thesis
  proof (cases "piece_collides (game w) (move p mx 0 mz)")
    case False
    with True assms first show ?thesis
      by (simp add: handle_wasd_def Let_def)
  next
    case hit: True
    with True assms first second show ?thesis
      by (simp add: handle_wasd_def Let_def current_piece_same)
  qed
qed

lemma piece_collides_update [simp]:
  "piece_collides (s\<lparr>current_piece := c\<rparr>) q = piece_collides s q"
  by (simp add: piece_collides_def)

text \<open>
  C7. While playing, each rotation key (Q, E, R), each arrow key and each W/A/S/D move
  tries the new placement of the current piece and tests it: if it collides, the piece
  is left with exactly the position and the offset list it had before, otherwise it
  keeps the new placement, and nothing else of the game state changes. A move followed
  by the opposite move gives back the anchor exactly. So a piece that did not collide
  before the key does not collide after it.
\<close>

theorem speculative_moves_revert:
  assumes "wf_grid (grid (game w))" and "current_mode w = STATE_PLAYING"
    and "\<not> game_over (game w)" and "current_piece (game w) = Some p"
  shows "move (move p dx dy dz) (- dx) (- dy) (- dz) = p \<and>
    (\<forall>r. r = p\<lparr>shape := map (\<lambda>(x, y, z). (- z, y, x)) (shape p)\<rparr> \<longrightarrow>
       keyboard_rotation (game w) Key_Q =
         Inr ((game w)\<lparr>current_piece := Some (if piece_collides (game w) r then p else r)\<rparr>)) \<and>
    (\<forall>r. r = p\<lparr>shape := map (\<lambda>(x, y, z). (z, y, - x)) (shape p)\<rparr> \<longrightarrow>
       keyboard_rotation (game w) Key_E =
         Inr ((game w)\<lparr>current_piece := Some (if piece_collides (game w) r then p else r)\<rparr>)) \<and>
    (\<forall>r. r = p\<lparr>shape := map (\<lambda>(x, y, z). (- y, x, z)) (shape p)\<rparr> \<longrightarrow>
       keyboard_rotation (game w) Key_R =
         Inr ((game w)\<lparr>current_piece := Some (if piece_collides (game w) r then p else r)\<rparr>)) \<and>
    (\<forall>k fx fz rx rz r.
       (k = GLUT_KEY_UP \<and> r = move p fx 0 fz \<or> k = GLUT_KEY_DOWN \<and> r = move p (- fx) 0 (- fz) \<or>
        k = GLUT_KEY_LEFT \<and> r = move p (- rx) 0 (- rz) \<or> k = GLUT_KEY_RIGHT \<and> r = move p rx 0 rz) \<longrightarrow>
       special_keys w k fx fz rx rz =
         Inr (w\<lparr>game := (game w)\<lparr>current_piece :=
                          Some (if piece_collides (game w) r then p else r)\<rparr>\<rparr>)) \<and>
    (\<forall>mx mz fxp fzp r r'.
       (mx \<noteq> 0 \<or> mz \<noteq> 0) \<and> r = move p mx 0 mz \<and>
       r' = move p (if mx \<noteq> 0 then 0 else if fxp then 1 else - 1) 0
                   (if mz \<noteq> 0 then 0 else if fzp then 1 else - 1) \<longrightarrow>
       handle_wasd w mx mz fxp fzp =
         Inr (w\<lparr>game := (game w)\<lparr>current_piece :=
                          Some (if \<not> piece_collides (game w) r then r
                                else if \<not> piece_collides (game w) r' then r' else p)\<rparr>\<rparr>)) \<and>
    (\<not> piece_collides (game w) p \<longrightarrow>
       (\<forall>k. \<exists>s' q. keyboard_rotation (game w) k = Inr s' \<and> current_piece s' = Some q \<and>
                 \<not> piece_collides s' q) \<and>
       (\<forall>k fx fz rx rz. \<exists>w' q. special_keys w k fx fz rx rz = Inr w' \<and>
                 current_piece (game w') = Some q \<and> \<not> piece_collides (game w') q) \<and>
       (\<forall>mx mz fxp fzp. \<exists>w' q. handle_wasd w mx mz fxp fzp = Inr w' \<and>
                 current_piece (game w') = Some q \<and> \<not> piece_collides (game w') q))"
proof -
  note rot = keyboard_rotation_eq[OF assms(1,4)]
  note spec = special_keys_eq[OF assms]
  note wasd = handle_wasd_eq[OF assms]
  have a: "move (move p dx dy dz) (- dx) (- dy) (- dz) = p"
    by (rule move_back)
  have b: "\<forall>r. r = p\<lparr>shape := map (\<lambda>(x, y, z). (- z, y, x)) (shape p)\<rparr> \<longrightarrow>
       keyboard_rotation (game w) Key_Q =
         Inr ((game w)\<lparr>current_piece := Some (if piece_collides (game w) r then p else r)\<rparr>)"
    by (simp add: rot Let_def)
  have c: "\<forall>r. r = p\<lparr>shape := map (\<lambda>(x, y, z). (z, y, - x)) (shape p)\<rparr> \<longrightarrow>
       keyboard_rotation (game w) Key_E =
         Inr ((game w)\<lparr>current_piece := Some (if piece_collides (game w) r then p else r)\<rparr>)"
    by (simp add: rot Let_def)
  have d: "\<forall>r. r = p\<lparr>shape := map (\<lambda>(x, y, z). (- y, x, z)) (shape p)\<rparr> \<longrightarrow>
       keyboard_rotation (game w) Key_R =
         Inr ((game w)\<lparr>current_piece := Some (if piece_collides (game w) r then p else r)\<rparr>)"
    by (simp add: rot Let_def)
  have e: "\<forall>k fx fz rx rz r.
       (k = GLUT_KEY_UP \<and> r = move p fx 0 fz \<or> k = GLUT_KEY_DOWN \<and> r = move p (- fx) 0 (- fz) \<or>
        k = GLUT_KEY_LEFT \<and> r = move p (- rx) 0 (- rz) \<or> k = GLUT_KEY_RIGHT \<and> r = move p rx 0 rz) \<longrightarrow>
       special_keys w k fx fz rx rz =
         Inr (w\<lparr>game := (game w)\<lparr>current_piece :=
                          Some (if piece_collides (game w) r then p else r)\<rparr>\<rparr>)"
  proof (intro allI impI)
    fix k fx fz rx rz r
    assume "k = GLUT_KEY_UP \<and> r = move p fx 0 fz \<or> k = GLUT_KEY_DOWN \<and> r = move p (- fx) 0 (- fz) \<or>
        k = GLUT_KEY_LEFT \<and> r = move p (- rx) 0 (- rz) \<or> k = GLUT_KEY_RIGHT \<and> r = move p rx 0 rz"
    then show "special_keys w k fx fz rx rz =
         Inr (w\<lparr>game := (game w)\<lparr>current_piece :=
                          Some (if piece_collides (game w) r then p else r)\<rparr>\<rparr>)"
      by (elim disjE conjE) (simp_all add: spec Let_def)
  qed
  have f: "\<forall>mx mz fxp fzp r r'.
       (mx \<noteq> 0 \<or> mz \<noteq> 0) \<and> r = move p mx 0 mz \<and>
       r' = move p (if mx \<noteq> 0 then 0 else if fxp then 1 else - 1) 0
                   (if mz \<noteq> 0 then 0 else if fzp then 1 else - 1) \<longrightarrow>
       handle_wasd w mx mz fxp fzp =
         Inr (w\<lparr>game := (game w)\<lparr>current_piece :=
                          Some (if \<not> piece_collides (game w) r then r
                                else if \<not> piece_collides (game w) r' then r' else p)\<rparr>\<rparr>)"
    by (simp add: wasd Let_def)
  have g: "\<not> piece_collides (game w) p \<longrightarrow>
       (\<forall>k. \<exists>s' q. keyboard_rotation (game w) k = Inr s' \<and> current_piece s' = Some q \<and>
                 \<not> piece_collides s' q) \<and>
       (\<forall>k fx fz rx rz. \<exists>w' q. special_keys w k fx fz rx rz = Inr w' \<and>
                 current_piece (game w') = Some q \<and> \<not> piece_collides (game w') q) \<and>
       (\<forall>mx mz fxp fzp. \<exists>w' q. handle_wasd w mx mz fxp fzp = Inr w' \<and>
                 current_piece (game w') = Some q \<and> \<not> piece_collides (game w') q)"
  proof (intro impI conjI allI)
    fix k
    assume "\<not> piece_collides (game w) p"
    then show "\<exists>s' q. keyboard_rotation (game w) k = Inr s' \<and> current_piece s' = Some q \<and>
                 \<not> piece_collides s' q"
      unfolding rot by (simp add: Let_def)
  next
    fix k fx fz rx rz
    assume "\<not> piece_collides (game w) p"
    then show "\<exists>w' q. special_keys w k fx fz rx rz = Inr w' \<and>
                 current_piece (game w') = Some q \<and> \<not> piece_collides (game w') q"
      unfolding spec by (simp add: Let_def)
  next
    fix mx mz fxp fzp
    assume "\<not> piece_collides (game w) p"
    then show "\<exists>w' q. handle_wasd w mx mz fxp fzp = Inr w' \<and>
                 current_piece (game w') = Some q \<and> \<not> piece_collides (game w') q"
      unfolding wasd by (simp add: Let_def)
  qed
  from a b c d e f g show ?thesis by (intro conjI)
qed

lemma grid_get_empty_grid:
  "x < 8 \<Longrightarrow> y < 20 \<Longrightarrow> z < 8 \<Longrightarrow> grid_get empty_grid x y z = Inr None"
  by (simp add: grid_get_wf[OF wf_empty_grid] empty_grid_cell)

lemma piece_collides_empty:
  "piece_collides (s\<lparr>grid := empty_grid\<rparr>) q \<longleftrightarrow>
     collision_loop empty_grid (position q) (shape q) = Inr True"
  by (simp add: piece_collides_def check_collision_def)

theorem speculative_moves_revert_witness:
  "keyboard_rotation I_state Key_R = Inr I_state \<and>
   keyboard_rotation I_state Key_Q =
     Inr (I_state\<lparr>current_piece :=
            Some (I_piece\<lparr>shape := [(0, 0, 0), (0, 0, 1), (0, 0, 2), (0, 0, 3)]\<rparr>)\<rparr>) \<and>
   special_keys I_world GLUT_KEY_UP 1 0 0 1 = Inr I_world \<and>
   special_keys I_world GLUT_KEY_DOWN 1 0 0 1 =
     Inr (I_world\<lparr>game := I_state\<lparr>current_piece := Some (I_piece\<lparr>position := (3, 17, 4)\<rparr>)\<rparr>\<rparr>) \<and>
   handle_wasd I_world 1 0 True True =
     Inr (I_world\<lparr>game := I_state\<lparr>current_piece := Some (I_piece\<lparr>position := (4, 17, 5)\<rparr>)\<rparr>\<rparr>)"
proof -
  have wf: "wf_grid (grid (game I_world))"
    by (simp add: I_world_def I_state_def GameState_init_def wf_empty_grid)
  have cur: "current_piece (game I_world) = Some I_piece"
    by (simp add: I_world_def I_state_def)
  have st: "game I_world = I_state" "current_mode I_world = STATE_PLAYING"
    "\<not> game_over (game I_world)"
    by (simp_all add: I_world_def I_state_def GameState_init_def)
  have same: "I_state\<lparr>current_piece := Some I_piece\<rparr> = I_state"
    "I_world\<lparr>game := I_state\<rparr> = I_world"
    by (simp_all add: I_state_def I_world_def)
  have I: "I_state = I_state\<lparr>grid := empty_grid\<rparr>"
    by (simp add: I_state_def GameState_init_def)
  have pc: "\<And>q. piece_collides I_state q \<longleftrightarrow>
      collision_loop empty_grid (position q) (shape q) = Inr True"
    by (subst I) (rule piece_collides_empty)
  have shape: "shape I_piece = [(0, 0, 0), (1, 0, 0), (2, 0, 0), (3, 0, 0)]"
    and pos: "position I_piece = (4, 17, 4)"
    by (simp_all add: I_piece_def SHAPES_3D_def spawn_position_def GRID_SIZE_defs)
  have r: "piece_collides I_state (I_piece\<lparr>shape := map (\<lambda>(x, y, z). (- y, x, z)) (shape I_piece)\<rparr>)"
    by (simp add: pc shape pos GRID_SIZE_defs grid_get_empty_grid)
  have q: "\<not> piece_collides I_state (I_piece\<lparr>shape := map (\<lambda>(x, y, z). (- z, y, x)) (shape I_piece)\<rparr>)"
    by (simp add: pc shape pos GRID_SIZE_defs grid_get_empty_grid)
  have up: "piece_collides I_state (move I_piece 1 0 0)"
    by (simp add: pc shape pos move_def GRID_SIZE_defs grid_get_empty_grid)
  have down: "\<not> piece_collides I_state (move I_piece (- 1) 0 (- 0))"
    by (simp add: pc shape pos move_def GRID_SIZE_defs grid_get_empty_grid)
  have alt: "\<not> piece_collides I_state (move I_piece 0 0 1)"
    by (simp add: pc shape pos move_def GRID_SIZE_defs grid_get_empty_grid)
  note main = speculative_moves_revert[OF wf st(2,3) cur, of 0 0 0, unfolded st(1)]
  note mQ = main[THEN conjunct2, THEN conjunct1, rule_format, OF refl]
  note mR = main[THEN conjunct2, THEN conjunct2, THEN conjunct2, THEN conjunct1, rule_format,
      OF refl]
  note mS = main[THEN conjunct2, THEN conjunct2, THEN conjunct2, THEN conjunct2,
      THEN conjunct1, rule_format]
  note mW = main[THEN conjunct2, THEN conjunct2, THEN conjunct2, THEN conjunct2,
      THEN conjunct2, THEN conjunct1, rule_format]
  have 1: "keyboard_rotation I_state Key_R = Inr I_state"
    using mR r by (simp add: same)
  have 2: "keyboard_rotation I_state Key_Q =
     Inr (I_state\<lparr>current_piece :=
            Some (I_piece\<lparr>shape := [(0, 0, 0), (0, 0, 1), (0, 0, 2), (0, 0, 3)]\<rparr>)\<rparr>)"
    using mQ q by (simp add: shape)
  have 3: "special_keys I_world GLUT_KEY_UP 1 0 0 1 = Inr I_world"
    using mS[of GLUT_KEY_UP "move I_piece 1 0 0" 1 0 0 1] up by (simp add: same)
  have 4: "special_keys I_world GLUT_KEY_DOWN 1 0 0 1 =
     Inr (I_world\<lparr>game := I_state\<lparr>current_piece := Some (I_piece\<lparr>position := (3, 17, 4)\<rparr>)\<rparr>\<rparr>)"
    using mS[of GLUT_KEY_DOWN "move I_piece (- 1) 0 (- 0)" 1 0 0 1] down
    by (simp add: move_def pos)
  have 5: "handle_wasd I_world 1 0 True True =
     Inr (I_world\<lparr>game := I_state\<lparr>current_piece := Some (I_piece\<lparr>position := (4, 17, 5)\<rparr>)\<rparr>\<rparr>)"
    using mW[of 1 0 "move I_piece 1 0 0" "move I_piece 0 0 1" True True] up alt
    by (simp add: move_def pos)
  from 1 2 3 4 5 show ?thesis by (intro conjI)
qed

section \<open>Spawning\<close>

lemma new_piece_ok: "i < 7 \<Longrightarrow> new_piece i = Inr (piece_of i)"
  by (simp add: new_piece_def piece_of_def SHAPES_3D_def CYBER_COLORS_def)

lemma piece_collides_iff:
  "piece_collides s q \<longleftrightarrow> collision_loop (grid s) (position q) (shape q) = Inr True"
  by (simp add: piece_collides_def check_collision_def)

lemma collision_loop_total:
  assumes "wf_grid g"
  shows "\<exists>b. collision_loop g pos bs = Inr b"
proof -
  obtain px py pz where "pos = (px, py, pz)" by (cases pos) auto
  with collision_loop_iff[OF assms, of px py pz bs] show ?thesis by blast
qed

lemma check_collision_current:
  assumes "wf_grid (grid s)" "current_piece s = Some q"
  shows "check_collision s (position q) = Inr (piece_collides s q)"
  using collision_loop_total[OF assms(1), of "position q" "shape q"] assms(2)
  by (auto simp: check_collision_def piece_collides_iff)

lemma spawn_next_aux:
  assumes "wf_grid (grid s)" "current_piece s = Some c" "next_piece s = Some n"
    and "piece_bag s \<noteq> []" "last (piece_bag s) < 7"
  shows "spawn_new_piece s shuffled =
      Inr (s\<lparr>piece_bag := butlast (piece_bag s), current_piece := Some n,
             next_piece := Some (piece_of (last (piece_bag s))),
             game_over := (game_over s \<or> piece_collides s n)\<rparr>)"
proof -
  let ?s2 = "s\<lparr>piece_bag := butlast (piece_bag s), current_piece := Some n,
                 next_piece := Some (piece_of (last (piece_bag s)))\<rparr>"
  have "wf_grid (grid ?s2)" "current_piece ?s2 = Some n"
    using assms(1) by simp_all
  from check_collision_current[OF this]
  have cc: "check_collision ?s2 (position n) = Inr (piece_collides s n)"
    by (simp add: piece_collides_iff)
  show ?thesis
    unfolding spawn_new_piece_def Let_def
    using assms(2-5) cc
    by (cases "piece_collides s n") (simp_all add: pop_def new_piece_ok)
qed

lemma spawn_first_aux:
  assumes "wf_grid (grid s)" "current_piece s = None"
    and "2 \<le> length (piece_bag s)" "last (piece_bag s) < 7" "last (butlast (piece_bag s)) < 7"
  shows "spawn_new_piece s shuffled =
      Inr (s\<lparr>piece_bag := butlast (butlast (piece_bag s)),
             current_piece := Some (piece_of (last (piece_bag s))),
             next_piece := Some (piece_of (last (butlast (piece_bag s)))),
             game_over := (game_over s \<or> piece_collides s (piece_of (last (piece_bag s))))\<rparr>)"
proof -
  let ?c = "piece_of (last (piece_bag s))"
  let ?s2 = "s\<lparr>piece_bag := butlast (butlast (piece_bag s)), current_piece := Some ?c,
                 next_piece := Some (piece_of (last (butlast (piece_bag s))))\<rparr>"
  have ne: "piece_bag s \<noteq> []" "butlast (piece_bag s) \<noteq> []"
    using assms(3) by (auto simp: butlast_conv_take)
  have "wf_grid (grid ?s2)" "current_piece ?s2 = Some ?c"
    using assms(1) by simp_all
  from check_collision_current[OF this]
  have cc: "check_collision ?s2 (position ?c) = Inr (piece_collides s ?c)"
    by (simp add: piece_collides_iff)
  show ?thesis
    unfolding spawn_new_piece_def Let_def
    using assms(2,4,5) ne cc
    by (cases "piece_collides s ?c") (simp_all add: pop_def new_piece_ok)
qed

lemma spawn_refill:
  "piece_bag s = [] \<Longrightarrow> shuffled \<noteq> [] \<Longrightarrow>
   spawn_new_piece s shuffled = spawn_new_piece (s\<lparr>piece_bag := shuffled\<rparr>) shuffled"
  by (simp add: spawn_new_piece_def)

lemma spawn_next:
  assumes "wf_grid (grid s)" "current_piece s \<noteq> None" "next_piece s = Some n"
    and "bag = (if piece_bag s = [] then shuffled else piece_bag s)"
    and "bag \<noteq> []" "last bag < 7"
  shows "\<exists>s'. spawn_new_piece s shuffled = Inr s' \<and> grid s' = grid s \<and> score s' = score s \<and>
            last_piece s' = last_piece s \<and> highscores s' = highscores s \<and>
            piece_bag s' = butlast bag \<and> current_piece s' = Some n \<and>
            next_piece s' = Some (piece_of (last bag)) \<and>
            game_over s' = (game_over s \<or> piece_collides s n)"
proof -
  from assms(2) obtain c where c: "current_piece s = Some c" by auto
  show ?thesis
  proof (cases "piece_bag s = []")
    case True
    with assms(4,5) have sh: "shuffled = bag" "shuffled \<noteq> []" by simp_all
    have "spawn_new_piece s shuffled = spawn_new_piece (s\<lparr>piece_bag := shuffled\<rparr>) shuffled"
      by (rule spawn_refill[OF True sh(2)])
    also have "\<dots> = Inr (s\<lparr>piece_bag := shuffled\<rparr>\<lparr>piece_bag := butlast (piece_bag (s\<lparr>piece_bag := shuffled\<rparr>)),
             current_piece := Some n,
             next_piece := Some (piece_of (last (piece_bag (s\<lparr>piece_bag := shuffled\<rparr>)))),
             game_over := (game_over (s\<lparr>piece_bag := shuffled\<rparr>) \<or>
                           piece_collides (s\<lparr>piece_bag := shuffled\<rparr>) n)\<rparr>)"
      using assms(1,3,6) c sh by (intro spawn_next_aux) simp_all
    finally show ?thesis using sh by (simp add: piece_collides_iff)
  next
    case False
    with assms(4) have "bag = piece_bag s" by simp
    with spawn_next_aux[OF assms(1) c assms(3) False, of shuffled] assms(6)
    show ?thesis by simp
  qed
qed

lemma spawn_first:
  assumes "wf_grid (grid s)" "current_piece s = None"
    and "bag = (if piece_bag s = [] then shuffled else piece_bag s)"
    and "2 \<le> length bag" "last bag < 7" "last (butlast bag) < 7"
  shows "\<exists>s'. spawn_new_piece s shuffled = Inr s' \<and> grid s' = grid s \<and> score s' = score s \<and>
            last_piece s' = last_piece s \<and> highscores s' = highscores s \<and>
            piece_bag s' = butlast (butlast bag) \<and>
            current_piece s' = Some (piece_of (last bag)) \<and>
            next_piece s' = Some (piece_of (last (butlast bag))) \<and>
            game_over s' = (game_over s \<or> piece_collides s (piece_of (last bag)))"
proof (cases "piece_bag s = []")
  case True
  with assms(3,4) have sh: "shuffled = bag" "shuffled \<noteq> []" by auto
  let ?s = "s\<lparr>piece_bag := shuffled\<rparr>"
  have "spawn_new_piece s shuffled = spawn_new_piece ?s shuffled"
    by (rule spawn_refill[OF True sh(2)])
  also have "\<dots> = Inr (?s\<lparr>piece_bag := butlast (butlast (piece_bag ?s)),
             current_piece := Some (piece_of (last (piece_bag ?s))),
             next_piece := Some (piece_of (last (butlast (piece_bag ?s)))),
             game_over := (game_over ?s \<or> piece_collides ?s (piece_of (last (piece_bag ?s))))\<rparr>)"
    using assms(1,2,4,5,6) sh by (intro spawn_first_aux) simp_all
  finally show ?thesis using sh by (simp add: piece_collides_iff)
next
  case False
  with assms(3) have "bag = piece_bag s" by simp
  with spawn_first_aux[OF assms(1,2), of shuffled] assms(4,5,6)
  show ?thesis by simp
qed

lemma spawn_one_left:
  assumes "current_piece s = None" "piece_bag s = [k]" "k < 7"
  shows "spawn_new_piece s shuffled = Inl IndexError"
  using assms by (simp add: spawn_new_piece_def pop_def new_piece_ok)

lemma rev_last_butlast: "xs \<noteq> [] \<Longrightarrow> rev xs = last xs # rev (butlast xs)"
  by (induction xs rule: rev_induct) simp_all

lemma spawn_run_rest:
  assumes "wf_grid (grid s)" "current_piece s \<noteq> None" "next_piece s \<noteq> None"
    and "\<forall>i\<in>set (piece_bag s). i < 7" "length rs = length (piece_bag s)"
  shows "\<exists>s'. spawn_run s rs = Inr (map (\<lambda>i. Some (piece_of i)) (rev (piece_bag s)), s') \<and>
           piece_bag s' = []"
  using assms
proof (induction rs arbitrary: s)
  case Nil
  then show ?case by simp
next
  case (Cons r rs)
  then have ne: "piece_bag s \<noteq> []" by auto
  from Cons.prems(3) obtain n where n: "next_piece s = Some n" by auto
  have lt: "last (piece_bag s) < 7" using Cons.prems(4) ne by simp
  from spawn_next[OF Cons.prems(1,2) n _ ne lt, of r] ne obtain s1 where
    s1: "spawn_new_piece s r = Inr s1" "grid s1 = grid s"
      "piece_bag s1 = butlast (piece_bag s)" "current_piece s1 = Some n"
      "next_piece s1 = Some (piece_of (last (piece_bag s)))"
    by auto
  have "\<exists>s'. spawn_run s1 rs = Inr (map (\<lambda>i. Some (piece_of i)) (rev (piece_bag s1)), s') \<and>
           piece_bag s' = []"
    using Cons.prems s1 by (intro Cons.IH) (auto dest: in_set_butlastD)
  then obtain s' where
    s': "spawn_run s1 rs = Inr (map (\<lambda>i. Some (piece_of i)) (rev (butlast (piece_bag s))), s')"
      "piece_bag s' = []"
    using s1(3) by auto
  from s1 s' Cons.prems(2) show ?case
    by (auto simp: rev_last_butlast[OF ne])
qed

text \<open>
  C6. Take consecutive spawns that begin at a refill of the bag: either the bag is empty
  and the first spawn refills it with the shuffle outcome \<open>p\<close>, or the bag has just been
  refilled by the caller (as \<open>display\<close> does before a first spawn). Either way the bag
  then holds a permutation of the seven shape indices. The seven pieces drawn from then on
  (by seven spawns, or by six when the first one draws the current and the next piece) are
  the pieces of the indices of the bag taken from its end; each of the seven indices is
  drawn exactly once, no piece is drawn twice, and the bag is empty again afterwards.
\<close>

theorem bag_draws_each_shape_once:
  assumes "wf_grid (grid s)" and "bag = (if piece_bag s = [] then p else piece_bag s)"
    and "mset bag = mset [0..<7]"
    and "current_piece s \<noteq> None \<longrightarrow> next_piece s \<noteq> None"
    and "length rest = (if current_piece s = None then 5 else 6)"
  shows "\<exists>s'. spawn_run s (p # rest) = Inr (map (\<lambda>i. Some (piece_of i)) (rev bag), s') \<and>
           piece_bag s' = [] \<and> length (rev bag) = 7 \<and>
           (\<forall>i<7. count_list (rev bag) i = 1) \<and>
           distinct (map (\<lambda>i. Some (piece_of i)) (rev bag))"
proof -
  have len: "length bag = 7" using mset_eq_length[OF assms(3)] by simp
  have set: "set bag = {0..<7}" using mset_eq_setD[OF assms(3)] by simp
  have dist: "distinct bag" using mset_eq_imp_distinct_iff[OF assms(3)] by simp
  have ne: "bag \<noteq> []" using len by auto
  have lt: "\<forall>i\<in>set bag. i < 7" using set by simp
  have ne2: "butlast bag \<noteq> []" using len by (auto simp: butlast_conv_take)
  have inj: "inj_on (\<lambda>i. Some (piece_of i)) {0..<7}"
  proof (rule inj_onI)
    fix i j :: nat
    assume "i \<in> {0..<7}" "j \<in> {0..<7}" "Some (piece_of i) = Some (piece_of j)"
    then have "i < 7" "j < 7" "SHAPES_3D ! i = SHAPES_3D ! j"
      by (simp_all add: piece_of_def)
    moreover have "distinct SHAPES_3D" "length SHAPES_3D = 7"
      by (simp_all add: SHAPES_3D_def)
    ultimately show "i = j" by (simp add: nth_eq_iff_index_eq)
  qed
  have d: "distinct (map (\<lambda>i. Some (piece_of i)) (rev bag))"
    using dist inj set by (simp add: distinct_map)
  have c: "\<forall>i<7. count_list (rev bag) i = 1"
  proof (intro allI impI)
    fix i :: nat
    assume "i < 7"
    have "count_list (rev bag) i = count (mset bag) i"
      by (simp add: count_mset)
    also have "\<dots> = 1"
      using \<open>i < 7\<close> by (simp add: assms(3))
    finally show "count_list (rev bag) i = 1" .
  qed
  have run: "\<exists>s'. spawn_run s (p # rest) = Inr (map (\<lambda>i. Some (piece_of i)) (rev bag), s') \<and>
           piece_bag s' = []"
  proof (cases "current_piece s = None")
    case True
    have "last (butlast bag) \<in> set (butlast bag)" using ne2 by simp
    then have "last (butlast bag) \<in> set bag" by (rule in_set_butlastD)
    then have "last bag < 7" "last (butlast bag) < 7"
      using lt ne by auto
    from spawn_first[OF assms(1) True assms(2) _ this] len obtain s1 where
      s1: "spawn_new_piece s p = Inr s1" "grid s1 = grid s"
        "piece_bag s1 = butlast (butlast bag)" "current_piece s1 = Some (piece_of (last bag))"
        "next_piece s1 = Some (piece_of (last (butlast bag)))"
      by auto
    have "\<exists>s'. spawn_run s1 rest = Inr (map (\<lambda>i. Some (piece_of i)) (rev (piece_bag s1)), s') \<and>
           piece_bag s' = []"
      using assms(1,5) True s1 lt len
      by (intro spawn_run_rest) (auto dest: in_set_butlastD)
    then obtain s' where
      s': "spawn_run s1 rest = Inr (map (\<lambda>i. Some (piece_of i)) (rev (butlast (butlast bag))), s')"
        "piece_bag s' = []"
      using s1(3) by auto
    from s1 s' True show ?thesis
      by (auto simp: rev_last_butlast[OF ne] rev_last_butlast[OF ne2])
  next
    case False
    with assms(4) obtain n where n: "next_piece s = Some n" by auto
    have "last bag < 7" using lt ne by simp
    from spawn_next[OF assms(1) False n assms(2) ne this] obtain s1 where
      s1: "spawn_new_piece s p = Inr s1" "grid s1 = grid s"
        "piece_bag s1 = butlast bag" "current_piece s1 = Some n"
        "next_piece s1 = Some (piece_of (last bag))"
      by auto
    have "\<exists>s'. spawn_run s1 rest = Inr (map (\<lambda>i. Some (piece_of i)) (rev (piece_bag s1)), s') \<and>
           piece_bag s' = []"
      using assms(1,5) False s1 lt len
      by (intro spawn_run_rest) (auto dest: in_set_butlastD)
    then obtain s' where
      s': "spawn_run s1 rest = Inr (map (\<lambda>i. Some (piece_of i)) (rev (butlast bag)), s')"
        "piece_bag s' = []"
      using s1(3) by auto
    from s1 s' False show ?thesis
      by (auto simp: rev_last_butlast[OF ne])
  qed
  with len c d show ?thesis by auto
qed

theorem bag_draws_each_shape_once_witness:
  "\<exists>s'. spawn_run (GameState_init []) [[3, 0, 6, 2, 5, 1, 4], [], [], [], [], []] =
         Inr (map (\<lambda>i. Some (piece_of i)) [4, 1, 5, 2, 6, 0, 3], s') \<and> piece_bag s' = []"
proof -
  have wf: "wf_grid (grid (GameState_init []))"
    by (simp add: GameState_init_def wf_empty_grid)
  have "[0..<7] = [0, 1, 2, 3, 4, 5, 6::nat]"
    by code_simp
  then have p: "mset [3, 0, 6, 2, 5, 1, 4] = mset [0..<7::nat]"
    by (simp del: mset_upt add: add_mset_commute)
  have e: "[3, 0, 6, 2, 5, 1, 4] =
      (if piece_bag (GameState_init []) = [] then [3, 0, 6, 2, 5, 1, 4]
       else piece_bag (GameState_init []))"
    and n: "current_piece (GameState_init []) = None"
    by (simp_all add: GameState_init_def)
  have "\<exists>s'. spawn_run (GameState_init []) ([3, 0, 6, 2, 5, 1, 4] # [[], [], [], [], []]) =
          Inr (map (\<lambda>i. Some (piece_of i)) (rev [3, 0, 6, 2, 5, 1, 4]), s') \<and>
        piece_bag s' = [] \<and> length (rev [3, 0, 6, 2, 5, 1, 4::nat]) = 7 \<and>
        (\<forall>i<7. count_list (rev [3, 0, 6, 2, 5, 1, 4::nat]) i = 1) \<and>
        distinct (map (\<lambda>i. Some (piece_of i)) (rev [3, 0, 6, 2, 5, 1, 4]))"
    by (rule bag_draws_each_shape_once[OF wf e p]) (simp_all add: n)
  then obtain s' where
    a: "spawn_run (GameState_init []) ([3, 0, 6, 2, 5, 1, 4] # [[], [], [], [], []]) =
          Inr (map (\<lambda>i. Some (piece_of i)) (rev [3, 0, 6, 2, 5, 1, 4]), s')"
    and b: "piece_bag s' = []"
    by blast
  have r: "rev [3, 0, 6, 2, 5, 1, 4::nat] = [4, 1, 5, 2, 6, 0, 3]"
    by simp
  from a[unfolded r] b show ?thesis by blast
qed

text \<open>
  C5. The claim is that no pop of a spawn fails, the first spawn of a game with its two
  pops included. The code does not keep it: a spawn with no current piece tests the bag
  once and pops twice. When the bag holds exactly one index (as it does four locks after
  a game began on a fresh bag) the second pop raises \<open>IndexError\<close>, and the restart
  of \<open>keyboard\<close> calls the spawn in just this way.
\<close>

theorem spawn_with_one_index_raises:
  "spawn_new_piece ((GameState_init [])\<lparr>piece_bag := [3]\<rparr>) [0, 1, 2, 3, 4, 5, 6] =
     Inl IndexError \<and>
   keyboard_restart
     \<lparr>game = I_state\<lparr>piece_bag := [3], next_piece := Some (piece_of 2), game_over := True\<rparr>,
      current_mode = STATE_GAME_OVER, previous_time = 0, time_accumulator_fall = 0\<rparr>
     [0, 1, 2, 3, 4, 5, 6] = Inl IndexError"
  by (simp add: keyboard_restart_def reset_grid_def spawn_one_left GameState_init_def)

section \<open>Locking and the score\<close>

lemma layer_score_eq:
  "layer_score k =
     (if k = 1 then 100 else if k = 2 then 300 else if k = 3 then 500
      else if k = 4 then 800 else int k * 100)"
  by (simp add: layer_score_def scores_def)

lemma lock_piece_and_clear_eq:
  assumes "wf_grid (grid s)" "current_piece s = Some p"
  shows "\<exists>g1 g2 k. lock_blocks (position p) (color p) (shape p) (grid s) = Inr g1 \<and>
           wf_grid g1 \<and> clear_loop g1 0 0 = Some (Inr (g2, k)) \<and> wf_grid g2 \<and>
           lock_piece_and_clear s shuffled =
             Some (spawn_new_piece
                     (s\<lparr>grid := g2, last_piece := Some p,
                        score := score s + (if k > 0 then layer_score k else 0) +
                                 int (length (shape p)) * 10\<rparr>) shuffled)"
proof -
  obtain cx cy cz where pos: "position p = (cx, cy, cz)" by (cases "position p") auto
  from lock_blocks_is[OF grid_is_self[OF assms(1)], of cx cy cz "color p" "shape p"]
  obtain g1 F1 where g1: "lock_blocks (position p) (color p) (shape p) (grid s) = Inr g1"
    "grid_is g1 F1"
    unfolding pos by blast
  from clear_loop_total[OF g1(2), of 0 0] obtain g2 k F2 where
    g2: "clear_loop g1 0 0 = Some (Inr (g2, k))" "grid_is g2 F2"
    by blast
  have "clone p = p" by (simp add: clone_def)
  then have "lock_piece_and_clear s shuffled =
             Some (spawn_new_piece
                     (s\<lparr>grid := g2, last_piece := Some p,
                        score := score s + (if k > 0 then layer_score k else 0) +
                                 int (length (shape p)) * 10\<rparr>) shuffled)"
    using assms(2) g1(1) g2(1) by (simp add: lock_piece_and_clear_def Let_def)
  with g1 g2 show ?thesis by (auto simp: grid_is_def)
qed

lemma lock_piece_and_clear_next:
  assumes "wf_grid (grid s)" "current_piece s = Some p" "next_piece s = Some n"
    and "bag = (if piece_bag s = [] then shuffled else piece_bag s)"
    and "bag \<noteq> []" "last bag < 7"
  shows "\<exists>g1 g2 k s'. lock_blocks (position p) (color p) (shape p) (grid s) = Inr g1 \<and>
           clear_loop g1 0 0 = Some (Inr (g2, k)) \<and> wf_grid g2 \<and>
           lock_piece_and_clear s shuffled = Some (Inr s') \<and> grid s' = g2 \<and>
           score s' = score s + (if k > 0 then layer_score k else 0) + int (length (shape p)) * 10 \<and>
           last_piece s' = Some p \<and> highscores s' = highscores s \<and>
           piece_bag s' = butlast bag \<and> current_piece s' = Some n \<and>
           next_piece s' = Some (piece_of (last bag)) \<and>
           game_over s' = (game_over s \<or> piece_collides s' n)"
proof -
  from lock_piece_and_clear_eq[OF assms(1,2), of shuffled] obtain g1 g2 k where
    l: "lock_blocks (position p) (color p) (shape p) (grid s) = Inr g1"
      "clear_loop g1 0 0 = Some (Inr (g2, k))" "wf_grid g2"
      "lock_piece_and_clear s shuffled =
             Some (spawn_new_piece
                     (s\<lparr>grid := g2, last_piece := Some p,
                        score := score s + (if k > 0 then layer_score k else 0) +
                                 int (length (shape p)) * 10\<rparr>) shuffled)"
    by blast
  let ?s3 = "s\<lparr>grid := g2, last_piece := Some p,
                score := score s + (if k > 0 then layer_score k else 0) +
                         int (length (shape p)) * 10\<rparr>"
  have "\<exists>s'. spawn_new_piece ?s3 shuffled = Inr s' \<and> grid s' = grid ?s3 \<and>
            score s' = score ?s3 \<and>
            last_piece s' = last_piece ?s3 \<and> highscores s' = highscores ?s3 \<and>
            piece_bag s' = butlast bag \<and> current_piece s' = Some n \<and>
            next_piece s' = Some (piece_of (last bag)) \<and>
            game_over s' = (game_over ?s3 \<or> piece_collides ?s3 n)"
    using assms l(3) by (intro spawn_next) simp_all
  then obtain s' where s': "spawn_new_piece ?s3 shuffled = Inr s'" "grid s' = g2"
      "score s' = score s + (if k > 0 then layer_score k else 0) + int (length (shape p)) * 10"
      "last_piece s' = Some p" "highscores s' = highscores s"
      "piece_bag s' = butlast bag" "current_piece s' = Some n"
      "next_piece s' = Some (piece_of (last bag))"
      "game_over s' = (game_over s \<or> piece_collides ?s3 n)"
    by auto
  have "piece_collides ?s3 n = piece_collides s' n"
    using s'(2) by (simp add: piece_collides_iff)
  with l s' show ?thesis by auto
qed

text \<open>
  C3. A lock (with a next piece waiting and an index to draw) returns, and the score
  grows by 10 for each block of the locked piece plus the bonus for the number \<open>k\<close> of
  layers the clearing loop has counted: nothing for 0, 100, 300, 500, 800 for 1, 2, 3, 4,
  and 100 a layer beyond 4. A piece of 4 blocks therefore adds 40, 140, 840 or 540
  when 0, 1, 4 or 5 layers are cleared.
\<close>

theorem lock_score:
  assumes "wf_grid (grid s)" and "current_piece s = Some p" and "next_piece s = Some n"
    and "bag = (if piece_bag s = [] then shuffled else piece_bag s)"
    and "bag \<noteq> []" and "last bag < 7"
  shows "\<exists>g1 g2 k s'. lock_blocks (position p) (color p) (shape p) (grid s) = Inr g1 \<and>
           clear_loop g1 0 0 = Some (Inr (g2, k)) \<and>
           lock_piece_and_clear s shuffled = Some (Inr s') \<and>
           score s' = score s + 10 * int (length (shape p)) +
             (if k = 0 then 0 else if k = 1 then 100 else if k = 2 then 300
              else if k = 3 then 500 else if k = 4 then 800 else 100 * int k) \<and>
           (length (shape p) = 4 \<longrightarrow>
              (k = 0 \<longrightarrow> score s' = score s + 40) \<and> (k = 1 \<longrightarrow> score s' = score s + 140) \<and>
              (k = 4 \<longrightarrow> score s' = score s + 840) \<and> (k = 5 \<longrightarrow> score s' = score s + 540))"
proof -
  from lock_piece_and_clear_next[OF assms] obtain g1 g2 k s' where
    l: "lock_blocks (position p) (color p) (shape p) (grid s) = Inr g1"
      "clear_loop g1 0 0 = Some (Inr (g2, k))"
      "lock_piece_and_clear s shuffled = Some (Inr s')"
      "score s' = score s + (if k > 0 then layer_score k else 0) + int (length (shape p)) * 10"
    by blast
  have sc: "score s' = score s + 10 * int (length (shape p)) +
             (if k = 0 then 0 else if k = 1 then 100 else if k = 2 then 300
              else if k = 3 then 500 else if k = 4 then 800 else 100 * int k)"
    using l(4) by (simp add: layer_score_eq)
  then have "length (shape p) = 4 \<longrightarrow>
              (k = 0 \<longrightarrow> score s' = score s + 40) \<and> (k = 1 \<longrightarrow> score s' = score s + 140) \<and>
              (k = 4 \<longrightarrow> score s' = score s + 840) \<and> (k = 5 \<longrightarrow> score s' = score s + 540)"
    by simp
  with l(1-3) sc show ?thesis by blast
qed

lemma clear_loop_bottom_only:
  assumes g: "grid_is g F" and full: "full_layer F 0"
    and rest: "\<forall>b. 0 < b \<and> b < 20 \<longrightarrow> \<not> full_layer F b"
  shows "\<exists>g'. clear_loop g 0 0 = Some (Inr (g', 1))"
proof -
  from clear_loop_full[OF g _ full, of 0] obtain g1 where
    g1: "grid_is g1 (shift_down F 0)" "clear_loop g 0 0 = clear_loop g1 0 (0 + 1)"
    by auto
  have "clear_loop g1 0 (0 + 1) = clear_loop g1 20 (0 + 1)"
    using rest by (intro clear_loop_skip[OF g1(1)]) (auto simp: full_layer_shift_down)
  with g1(2) show ?thesis by (simp add: clear_loop_done)
qed

theorem lock_score_witness:
  "\<exists>s'. lock_piece_and_clear lock_test_state [] = Some (Inr s') \<and> score s' = 140"
proof -
  let ?p = "I_piece\<lparr>position := (0, 0, 0)\<rparr>"
  let ?F1 = "\<lambda>a b c. if (\<exists>(ox, oy, oz) \<in> set (shape ?p).
                            int a = 0 + ox \<and> int b = 0 + oy \<and> int c = 0 + oz)
                     then Some (color ?p) else almost_full_layer a b c"
  have shape: "shape ?p = [(0, 0, 0), (1, 0, 0), (2, 0, 0), (3, 0, 0)]"
    by (simp add: I_piece_def SHAPES_3D_def)
  have wf: "wf_grid (grid lock_test_state)"
    by (simp add: lock_test_state_def grid_is_wf[OF grid_is_grid_of])
  have cur: "current_piece lock_test_state = Some ?p"
    and nxt: "next_piece lock_test_state = Some (piece_of 2)"
    and bag: "[3] = (if piece_bag lock_test_state = [] then [] else piece_bag lock_test_state)"
    and sc: "score lock_test_state = 0"
    by (simp_all add: lock_test_state_def)
  from lock_score[OF wf cur nxt bag] obtain g1 g2 k s' where
    l: "lock_blocks (position ?p) (color ?p) (shape ?p) (grid lock_test_state) = Inr g1"
      "clear_loop g1 0 0 = Some (Inr (g2, k))"
      "lock_piece_and_clear lock_test_state [] = Some (Inr s')"
      "length (shape ?p) = 4 \<longrightarrow>
              (k = 0 \<longrightarrow> score s' = score lock_test_state + 40) \<and>
              (k = 1 \<longrightarrow> score s' = score lock_test_state + 140) \<and>
              (k = 4 \<longrightarrow> score s' = score lock_test_state + 840) \<and>
              (k = 5 \<longrightarrow> score s' = score lock_test_state + 540)"
    by auto
  from lock_blocks_is[OF grid_is_grid_of[of almost_full_layer], of 0 0 0 "color ?p" "shape ?p"]
  obtain g1' where g1': "lock_blocks (0, 0, 0) (color ?p) (shape ?p) (grid_of almost_full_layer) = Inr g1'"
    "grid_is g1' ?F1"
    by blast
  have "g1' = g1" using g1'(1) l(1) by (simp add: lock_test_state_def)
  with g1'(2) have g1: "grid_is g1 ?F1" by simp
  have full: "full_layer ?F1 0"
    unfolding full_layer_def
  proof (intro allI impI)
    fix x z :: nat
    assume "x < 8" "z < 8"
    show "?F1 x 0 z \<noteq> None"
    proof (cases "z = 0 \<and> x < 4")
      case True
      then have "x = 0 \<or> x = 1 \<or> x = 2 \<or> x = 3" by arith
      with True show ?thesis by (auto simp: shape)
    next
      case False
      then show ?thesis by (simp add: almost_full_layer_def del: not_None_eq)
    qed
  qed
  have rest: "\<forall>b. 0 < b \<and> b < 20 \<longrightarrow> \<not> full_layer ?F1 b"
  proof (intro allI impI)
    fix b :: nat
    assume "0 < b \<and> b < 20"
    then have "?F1 0 b 0 = None" by (auto simp: shape almost_full_layer_def)
    then show "\<not> full_layer ?F1 b" unfolding full_layer_def by (intro notI) (metis zero_less_numeral)
  qed
  from clear_loop_bottom_only[OF g1 full rest] l(2) have "k = 1" by auto
  with l(3,4) show ?thesis by (simp add: shape sc)
qed

section \<open>The timer callback\<close>

lemma move_position_back: "(move p dx dy dz)\<lparr>position := position p\<rparr> = p"
  by (cases p, cases "position p") (auto simp: move_def)

lemma gravity_step_move:
  assumes "wf_grid (grid (game w))" "current_piece (game w) = Some p"
    and "\<not> piece_collides (game w) (move p 0 (- 1) 0)"
  shows "gravity_step w shuffled =
     Some (Inr (w\<lparr>game := (game w)\<lparr>current_piece := Some (move p 0 (- 1) 0)\<rparr>\<rparr>))"
  using check_collision_piece[OF assms(1), of "move p 0 (- 1) 0"] assms(2,3)
  by (simp add: gravity_step_def Let_def)

lemma gravity_step_lock:
  assumes "wf_grid (grid (game w))" "current_piece (game w) = Some p"
    and "piece_collides (game w) (move p 0 (- 1) 0)"
  shows "gravity_step w shuffled =
     (case lock_piece_and_clear (game w) shuffled of
        None \<Rightarrow> None
      | Some (Inl e) \<Rightarrow> Some (Inl e)
      | Some (Inr s2) \<Rightarrow>
          Some (Inr (if game_over s2 then set_mode STATE_GAME_OVER (w\<lparr>game := s2\<rparr>)
                     else w\<lparr>game := s2\<rparr>)))"
  using check_collision_piece[OF assms(1), of "move p 0 (- 1) 0"] assms(2,3)
  by (simp add: gravity_step_def Let_def move_position_back current_piece_same
      split: option.splits sum.splits)

lemma set_mode_times:
  "time_accumulator_fall (set_mode m w) = time_accumulator_fall w"
  "previous_time (set_mode m w) = previous_time w"
  "current_mode (set_mode m w) = m"
  by (simp_all add: set_mode_def Let_def split: prod.splits)

lemma set_mode_game_over:
  "game_over (game (set_mode STATE_GAME_OVER w)) = game_over (game w)"
  "current_piece (game (set_mode STATE_GAME_OVER w)) = current_piece (game w)"
  "grid (game (set_mode STATE_GAME_OVER w)) = grid (game w)"
  by (simp_all add: set_mode_def Let_def split: prod.splits)

lemma gravity_step_times:
  assumes "gravity_step w shuffled = Some (Inr w')"
  shows "time_accumulator_fall w' = time_accumulator_fall w \<and> previous_time w' = previous_time w"
  using assms
  by (auto simp: gravity_step_def Let_def set_mode_times
      split: option.splits sum.splits if_splits)

lemma game_loop_over:
  "game_over (game w) \<Longrightarrow> game_loop w t shuffled = Some (Inr (w\<lparr>previous_time := t\<rparr>))"
  by (simp add: game_loop_def)

lemma game_loop_run_over:
  "game_over (game w) \<Longrightarrow>
   \<exists>w'. game_loop_run w ticks = Some (Inr w') \<and> game w' = game w \<and>
        current_mode w' = current_mode w \<and> time_accumulator_fall w' = time_accumulator_fall w"
proof (induction ticks arbitrary: w)
  case Nil
  then show ?case by simp
next
  case (Cons c ticks)
  from Cons.IH[of "w\<lparr>previous_time := fst c\<rparr>"] Cons.prems
  show ?case by (simp add: game_loop_over)
qed

lemma new_piece_Inr: "new_piece i = Inr c \<Longrightarrow> i < 7 \<and> c = piece_of i"
  by (auto simp: new_piece_def piece_of_def SHAPES_3D_def CYBER_COLORS_def split: if_splits)

lemma spawn_new_piece_Inr:
  assumes "wf_grid (grid s)" "spawn_new_piece s shuffled = Inr s'"
  shows "grid s' = grid s \<and> score s' = score s \<and>
    (\<exists>j<7. next_piece s' = Some (piece_of j)) \<and>
    (\<exists>c. current_piece s' = Some c \<and> game_over s' = (game_over s \<or> piece_collides s' c) \<and>
         (if current_piece s = None then \<exists>i<7. c = piece_of i
          else next_piece s = Some c))"
proof -
  let ?s1 = "if piece_bag s = [] then s\<lparr>piece_bag := shuffled\<rparr> else s"
  have s1: "grid ?s1 = grid s" "score ?s1 = score s" "game_over ?s1 = game_over s"
    "current_piece ?s1 = current_piece s" "next_piece ?s1 = next_piece s"
    by simp_all
  from assms(2) obtain s2 where
    s2: "(if current_piece ?s1 = None then
           rbind (pop (piece_bag ?s1)) (\<lambda>(shape_index, bag1).
           rbind (new_piece shape_index) (\<lambda>cur.
           rbind (pop bag1) (\<lambda>(shape_index', bag2).
           rbind (new_piece shape_index') (\<lambda>nxt.
             Inr (?s1\<lparr>piece_bag := bag2, current_piece := Some cur, next_piece := Some nxt\<rparr>)))))
         else
           rbind (pop (piece_bag ?s1)) (\<lambda>(shape_index, bag1).
           rbind (new_piece shape_index) (\<lambda>nxt.
             Inr (?s1\<lparr>piece_bag := bag1, current_piece := next_piece ?s1,
                     next_piece := Some nxt\<rparr>)))) = Inr s2"
    and fin: "(case current_piece s2 of
             None \<Rightarrow> Inl AttributeError
           | Some p \<Rightarrow>
               rbind (check_collision s2 (position p))
                 (\<lambda>hit. if hit then Inr (s2\<lparr>game_over := True\<rparr>) else Inr s2)) = Inr s'"
    unfolding spawn_new_piece_def Let_def rbind_def by (auto split: sum.splits)
  from s2 have d: "grid s2 = grid s \<and> score s2 = score s \<and> game_over s2 = game_over s \<and>
      (\<exists>j<7. next_piece s2 = Some (piece_of j)) \<and>
      (if current_piece s = None then \<exists>i<7. current_piece s2 = Some (piece_of i)
       else current_piece s2 = next_piece s)"
    unfolding s1(4,5)
    by (auto simp: rbind_def dest!: new_piece_Inr split: sum.splits if_splits prod.splits)
  from fin obtain c where c: "current_piece s2 = Some c"
    by (auto split: option.splits)
  have wf2: "wf_grid (grid s2)" using d assms(1) by simp
  from check_collision_current[OF wf2 c] fin c
  have "s' = (if piece_collides s2 c then s2\<lparr>game_over := True\<rparr> else s2)"
    by (auto split: if_splits)
  then have "grid s' = grid s2" "score s' = score s2" "current_piece s' = Some c"
    "next_piece s' = next_piece s2"
    "game_over s' = (game_over s2 \<or> piece_collides s2 c)"
    "piece_collides s' c = piece_collides s2 c"
    using c by (auto simp: piece_collides_iff)
  with d c show ?thesis by auto
qed

lemma lt_7_cases: "i < 7 \<Longrightarrow> i = 0 \<or> i = 1 \<or> i = 2 \<or> i = 3 \<or> i = 4 \<or> i = 5 \<or> i = (6::nat)"
  by arith

lemma piece_of_free:
  assumes "i < 7" "grid s = empty_grid"
  shows "\<not> piece_collides s (piece_of i)"
  using lt_7_cases[OF assms(1)] assms(2)
  by (elim disjE)
     (simp_all add: piece_collides_iff piece_of_def SHAPES_3D_def spawn_position_def
        GRID_SIZE_defs grid_get_empty_grid)

lemma keyboard_restart_Inr:
  assumes "keyboard_restart w shuffled = Inr w'"
  shows "\<not> game_over (game w') \<and> current_mode w' = STATE_PLAYING \<and>
         grid (game w') = empty_grid \<and> score (game w') = 0"
proof -
  let ?s0 = "(reset_grid (game w))\<lparr>score := 0, game_over := False, current_piece := None,
                                     next_piece := None\<rparr>"
  from assms obtain s1 where s1: "spawn_new_piece ?s0 shuffled = Inr s1"
    and w': "w' = set_mode STATE_PLAYING (w\<lparr>game := s1\<lparr>is_new_highscore := False\<rparr>\<rparr>)"
    by (auto simp: keyboard_restart_def rbind_def split: sum.splits)
  have g0: "grid ?s0 = empty_grid" "current_piece ?s0 = None" "\<not> game_over ?s0" "score ?s0 = 0"
    by (simp_all add: reset_grid_def)
  have wf: "wf_grid (grid ?s0)" using g0(1) wf_empty_grid by simp
  from spawn_new_piece_Inr[OF wf s1] g0 obtain c i where
    c: "grid s1 = empty_grid" "score s1 = 0" "current_piece s1 = Some c"
      "game_over s1 = piece_collides s1 c" "i < 7" "c = piece_of i"
    by auto
  from piece_of_free[OF c(5) c(1)] c have "\<not> game_over s1" by simp
  with c(1,2) w' show ?thesis by (simp add: set_mode_def)
qed

lemma gravity_step_becomes_over:
  assumes "wf_grid (grid (game w))" "\<not> game_over (game w)"
    and "gravity_step w shuffled = Some (Inr w')" "game_over (game w')"
  shows "current_mode w' = STATE_GAME_OVER \<and>
         (\<exists>c. next_piece (game w) = Some c \<and> current_piece (game w') = Some c \<and>
              piece_collides (game w') c)"
proof (cases "current_piece (game w)")
  case None
  with assms show ?thesis by (simp add: gravity_step_def)
next
  case (Some p)
  show ?thesis
  proof (cases "piece_collides (game w) (move p 0 (- 1) 0)")
    case False
    from gravity_step_move[OF assms(1) Some False, of shuffled] assms(2-4)
    show ?thesis by auto
  next
    case True
    from lock_piece_and_clear_eq[OF assms(1) Some, of shuffled] obtain g2 k where
      l: "wf_grid g2"
        "lock_piece_and_clear (game w) shuffled =
             Some (spawn_new_piece
                     ((game w)\<lparr>grid := g2, last_piece := Some p,
                        score := score (game w) + (if k > 0 then layer_score k else 0) +
                                 int (length (shape p)) * 10\<rparr>) shuffled)"
      by blast
    let ?s3 = "(game w)\<lparr>grid := g2, last_piece := Some p,
                        score := score (game w) + (if k > 0 then layer_score k else 0) +
                                 int (length (shape p)) * 10\<rparr>"
    from gravity_step_lock[OF assms(1) Some True, of shuffled] assms(3) l(2)
    obtain s2 where s2: "spawn_new_piece ?s3 shuffled = Inr s2"
      "w' = (if game_over s2 then set_mode STATE_GAME_OVER (w\<lparr>game := s2\<rparr>) else w\<lparr>game := s2\<rparr>)"
      by (auto split: sum.splits)
    have over: "game_over s2"
      using s2(2) assms(4) by (auto simp: set_mode_game_over split: if_splits)
    have wf3: "wf_grid (grid ?s3)" using l(1) by simp
    from spawn_new_piece_Inr[OF wf3 s2(1)] Some assms(2) over obtain c where
      c: "grid s2 = g2" "current_piece s2 = Some c" "piece_collides s2 c"
        "next_piece (game w) = Some c"
      by auto
    have "piece_collides (game w') c"
      using c(3) s2(2) over by (simp add: piece_collides_iff set_mode_game_over)
    with c over s2(2) show ?thesis
      by (simp add: set_mode_game_over set_mode_times)
  qed
qed

lemma game_loop_becomes_over:
  assumes "wf_grid (grid (game w))" "\<not> game_over (game w)"
    and "game_loop w t shuffled = Some (Inr w')" "game_over (game w')"
  shows "current_mode w' = STATE_GAME_OVER \<and>
         (\<exists>c. next_piece (game w) = Some c \<and> current_piece (game w') = Some c \<and>
              piece_collides (game w') c)"
proof -
  let ?acc = "time_accumulator_fall w + (t - previous_time w)"
  let ?w3 = "w\<lparr>previous_time := t, time_accumulator_fall := ?acc - 500\<rparr>"
  have "current_mode w = STATE_PLAYING \<and> 500 \<le> ?acc \<and> gravity_step ?w3 shuffled = Some (Inr w')"
    using assms(2-4)
    by (auto simp: game_loop_def Let_def FALL_INTERVAL_MS_def split: if_splits)
  then have g: "gravity_step ?w3 shuffled = Some (Inr w')" by simp
  from gravity_step_becomes_over[OF _ _ g assms(4)] assms(1,2)
  show ?thesis by simp
qed

text \<open>
  C4 (as the code has it). A tick outside the mode \<open>STATE_PLAYING\<close>, or with the game
  over, is no concern here. Otherwise the elapsed milliseconds are added to the fall
  accumulator. Below 500 nothing else happens. From 500 on the accumulator is reduced by
  500 once and one gravity step is applied, whatever the accumulator still holds: the
  piece moves one cell down, or, if that collides, is put back and locked (and the mode
  follows a game over). The rest of the accumulator waits for the next ticks.
\<close>

theorem game_loop_one_step_per_tick:
  assumes "current_mode w = STATE_PLAYING" and "\<not> game_over (game w)"
    and "acc = time_accumulator_fall w + (t - previous_time w)"
  shows "(acc < 500 \<longrightarrow>
            game_loop w t shuffled =
              Some (Inr (w\<lparr>previous_time := t, time_accumulator_fall := acc\<rparr>))) \<and>
         (500 \<le> acc \<longrightarrow>
            game_loop w t shuffled =
              gravity_step (w\<lparr>previous_time := t, time_accumulator_fall := acc - 500\<rparr>) shuffled \<and>
            (\<forall>w'. game_loop w t shuffled = Some (Inr w') \<longrightarrow>
                  time_accumulator_fall w' = acc - 500 \<and> previous_time w' = t) \<and>
            (\<forall>p. wf_grid (grid (game w)) \<and> current_piece (game w) = Some p \<and>
                 \<not> piece_collides (game w) (move p 0 (- 1) 0) \<longrightarrow>
                 game_loop w t shuffled =
                   Some (Inr (w\<lparr>previous_time := t, time_accumulator_fall := acc - 500,
                                game := (game w)\<lparr>current_piece := Some (move p 0 (- 1) 0)\<rparr>\<rparr>))) \<and>
            (\<forall>p. wf_grid (grid (game w)) \<and> current_piece (game w) = Some p \<and>
                 piece_collides (game w) (move p 0 (- 1) 0) \<longrightarrow>
                 game_loop w t shuffled =
                   (case lock_piece_and_clear (game w) shuffled of
                      None \<Rightarrow> None
                    | Some (Inl e) \<Rightarrow> Some (Inl e)
                    | Some (Inr s2) \<Rightarrow>
                        Some (Inr (if game_over s2
                                   then set_mode STATE_GAME_OVER
                                          (w\<lparr>previous_time := t, time_accumulator_fall := acc - 500,
                                             game := s2\<rparr>)
                                   else w\<lparr>previous_time := t, time_accumulator_fall := acc - 500,
                                          game := s2\<rparr>)))))"
proof -
  let ?w3 = "w\<lparr>previous_time := t, time_accumulator_fall := acc - 500\<rparr>"
  have small: "acc < 500 \<longrightarrow>
            game_loop w t shuffled =
              Some (Inr (w\<lparr>previous_time := t, time_accumulator_fall := acc\<rparr>))"
    using assms by (simp add: game_loop_def Let_def FALL_INTERVAL_MS_def)
  have step: "500 \<le> acc \<Longrightarrow> game_loop w t shuffled = gravity_step ?w3 shuffled"
    using assms by (simp add: game_loop_def Let_def FALL_INTERVAL_MS_def)
  have times: "500 \<le> acc \<Longrightarrow> \<forall>w'. game_loop w t shuffled = Some (Inr w') \<longrightarrow>
                  time_accumulator_fall w' = acc - 500 \<and> previous_time w' = t"
    using gravity_step_times[of ?w3 shuffled] step by auto
  have mv: "500 \<le> acc \<Longrightarrow> \<forall>p. wf_grid (grid (game w)) \<and> current_piece (game w) = Some p \<and>
                 \<not> piece_collides (game w) (move p 0 (- 1) 0) \<longrightarrow>
                 game_loop w t shuffled =
                   Some (Inr (w\<lparr>previous_time := t, time_accumulator_fall := acc - 500,
                                game := (game w)\<lparr>current_piece := Some (move p 0 (- 1) 0)\<rparr>\<rparr>))"
    using gravity_step_move[of ?w3 _ shuffled] step by auto
  have lk: "500 \<le> acc \<Longrightarrow> \<forall>p. wf_grid (grid (game w)) \<and> current_piece (game w) = Some p \<and>
                 piece_collides (game w) (move p 0 (- 1) 0) \<longrightarrow>
                 game_loop w t shuffled =
                   (case lock_piece_and_clear (game w) shuffled of
                      None \<Rightarrow> None
                    | Some (Inl e) \<Rightarrow> Some (Inl e)
                    | Some (Inr s2) \<Rightarrow>
                        Some (Inr (if game_over s2
                                   then set_mode STATE_GAME_OVER
                                          (w\<lparr>previous_time := t, time_accumulator_fall := acc - 500,
                                             game := s2\<rparr>)
                                   else w\<lparr>previous_time := t, time_accumulator_fall := acc - 500,
                                          game := s2\<rparr>)))"
    using gravity_step_lock[of ?w3 _ shuffled] step by auto
  from small step times mv lk show ?thesis by (intro conjI impI) auto
qed

text \<open>
  C4 as stated fails. On a tick that finds 1000 ms elapsed, two thresholds of 500 ms are
  crossed: the accumulator goes to 500 and the piece falls one cell, from Y 17 to 16. The
  second gravity step, which would take it to 15, is not applied in that tick.
\<close>

theorem two_thresholds_one_step:
  "game_loop I_world 1000 [] =
     Some (Inr (I_world\<lparr>previous_time := 1000, time_accumulator_fall := 500,
                  game := I_state\<lparr>current_piece := Some (I_piece\<lparr>position := (4, 16, 4)\<rparr>)\<rparr>\<rparr>)) \<and>
   gravity_step (I_world\<lparr>game := I_state\<lparr>current_piece := Some (I_piece\<lparr>position := (4, 16, 4)\<rparr>)\<rparr>\<rparr>) [] =
     Some (Inr (I_world\<lparr>game := I_state\<lparr>current_piece := Some (I_piece\<lparr>position := (4, 15, 4)\<rparr>)\<rparr>\<rparr>))"
proof -
  have shape: "shape I_piece = [(0, 0, 0), (1, 0, 0), (2, 0, 0), (3, 0, 0)]"
    and pos: "position I_piece = (4, 17, 4)"
    by (simp_all add: I_piece_def SHAPES_3D_def spawn_position_def GRID_SIZE_defs)
  have g: "grid I_state = empty_grid" by (simp add: I_state_def GameState_init_def)
  have cur: "current_piece I_state = Some I_piece" by (simp add: I_state_def)
  have free: "\<And>y. 0 \<le> y \<Longrightarrow> y < 20 \<Longrightarrow> \<not> piece_collides I_state (I_piece\<lparr>position := (4, y, 4)\<rparr>)"
    by (simp add: piece_collides_iff g shape GRID_SIZE_defs grid_get_empty_grid)
  have m1: "move I_piece 0 (- 1) 0 = I_piece\<lparr>position := (4, 16, 4)\<rparr>"
    and m2: "move (I_piece\<lparr>position := (4, 16, 4)\<rparr>) 0 (- 1) 0 = I_piece\<lparr>position := (4, 15, 4)\<rparr>"
    by (simp_all add: move_def pos)
  let ?w1 = "I_world\<lparr>previous_time := 1000, time_accumulator_fall := 500\<rparr>"
  have "game_loop I_world 1000 [] = gravity_step ?w1 []"
    by (simp add: game_loop_def Let_def FALL_INTERVAL_MS_def I_world_def I_state_def
        GameState_init_def)
  also have "\<dots> = Some (Inr (?w1\<lparr>game := (game ?w1)\<lparr>current_piece := Some (move I_piece 0 (- 1) 0)\<rparr>\<rparr>))"
    using free[of 16]
    by (intro gravity_step_move) (simp_all add: I_world_def cur g wf_empty_grid m1)
  finally have a: "game_loop I_world 1000 [] =
     Some (Inr (I_world\<lparr>previous_time := 1000, time_accumulator_fall := 500,
                  game := I_state\<lparr>current_piece := Some (I_piece\<lparr>position := (4, 16, 4)\<rparr>)\<rparr>\<rparr>))"
    by (simp add: m1 I_world_def)
  let ?w2 = "I_world\<lparr>game := I_state\<lparr>current_piece := Some (I_piece\<lparr>position := (4, 16, 4)\<rparr>)\<rparr>\<rparr>"
  have "gravity_step ?w2 [] =
      Some (Inr (?w2\<lparr>game := (game ?w2)\<lparr>current_piece :=
                     Some (move (I_piece\<lparr>position := (4, 16, 4)\<rparr>) 0 (- 1) 0)\<rparr>\<rparr>))"
    using free[of 15]
    by (intro gravity_step_move) (simp_all add: g wf_empty_grid m2)
  then have b: "gravity_step ?w2 [] =
     Some (Inr (I_world\<lparr>game := I_state\<lparr>current_piece := Some (I_piece\<lparr>position := (4, 15, 4)\<rparr>)\<rparr>\<rparr>))"
    by (simp add: m2)
  from a b show ?thesis by (intro conjI)
qed

theorem game_loop_one_step_per_tick_witness:
  "game_loop I_world 300 [] =
     Some (Inr (I_world\<lparr>previous_time := 300, time_accumulator_fall := 300\<rparr>)) \<and>
   game_loop I_world 1200 [] =
     Some (Inr (I_world\<lparr>previous_time := 1200, time_accumulator_fall := 700,
                  game := I_state\<lparr>current_piece := Some (I_piece\<lparr>position := (4, 16, 4)\<rparr>)\<rparr>\<rparr>))"
proof -
  have shape: "shape I_piece = [(0, 0, 0), (1, 0, 0), (2, 0, 0), (3, 0, 0)]"
    and pos: "position I_piece = (4, 17, 4)"
    by (simp_all add: I_piece_def SHAPES_3D_def spawn_position_def GRID_SIZE_defs)
  have g: "grid I_state = empty_grid" by (simp add: I_state_def GameState_init_def)
  have m1: "move I_piece 0 (- 1) 0 = I_piece\<lparr>position := (4, 16, 4)\<rparr>"
    by (simp add: move_def pos)
  have free: "\<not> piece_collides (game I_world) (move I_piece 0 (- 1) 0)"
    by (simp add: m1 piece_collides_iff I_world_def g shape GRID_SIZE_defs grid_get_empty_grid)
  have st: "current_mode I_world = STATE_PLAYING" "\<not> game_over (game I_world)"
    "wf_grid (grid (game I_world))" "current_piece (game I_world) = Some I_piece"
    by (simp_all add: I_world_def I_state_def GameState_init_def wf_empty_grid)
  have acc: "300 = time_accumulator_fall I_world + (300 - previous_time I_world)"
    "1200 = time_accumulator_fall I_world + (1200 - previous_time I_world)"
    by (simp_all add: I_world_def)
  note small = game_loop_one_step_per_tick[OF st(1,2) acc(1), of "[]", THEN conjunct1, rule_format]
  note large = game_loop_one_step_per_tick[OF st(1,2) acc(2), of "[]", THEN conjunct2, rule_format,
      THEN conjunct2, THEN conjunct2, THEN conjunct1, rule_format, of I_piece]
  have a: "game_loop I_world 300 [] =
     Some (Inr (I_world\<lparr>previous_time := 300, time_accumulator_fall := 300\<rparr>))"
    using small by simp
  have b: "game_loop I_world 1200 [] =
     Some (Inr (I_world\<lparr>previous_time := 1200, time_accumulator_fall := 700,
                  game := I_state\<lparr>current_piece := Some (I_piece\<lparr>position := (4, 16, 4)\<rparr>)\<rparr>\<rparr>))"
    using large st(3,4) free by (simp add: m1 I_world_def)
  from a b show ?thesis by (intro conjI)
qed

lemma position_piece_of: "position (piece_of i) = spawn_position"
  by (simp add: piece_of_def)

lemma spawn_position_eq: "spawn_position = (4, 17, 4)"
  by (simp add: spawn_position_def GRID_SIZE_defs)

lemma keyboard_rotation_state:
  assumes "wf_grid (grid s)" "current_piece s = Some p"
  shows "\<exists>q. keyboard_rotation s k = Inr (s\<lparr>current_piece := Some q\<rparr>)"
  using keyboard_rotation_eq[OF assms, of k] by blast

lemma special_keys_state:
  assumes "wf_grid (grid (game w))"
  shows "\<exists>w'. special_keys w k fx fz rx rz = Inr w' \<and> game_over (game w') = game_over (game w)"
proof (cases "current_mode w = STATE_PLAYING \<and> \<not> game_over (game w) \<and>
              current_piece (game w) \<noteq> None")
  case True
  then obtain p where "current_piece (game w) = Some p" by auto
  from special_keys_eq[OF assms _ _ this, of k fx fz rx rz] True show ?thesis by simp
next
  case False
  then show ?thesis by (auto simp: special_keys_def)
qed

lemma handle_wasd_state:
  assumes "wf_grid (grid (game w))"
  shows "\<exists>w'. handle_wasd w mx mz fxp fzp = Inr w' \<and> game_over (game w') = game_over (game w)"
proof (cases "current_mode w = STATE_PLAYING \<and> \<not> game_over (game w) \<and>
              current_piece (game w) \<noteq> None")
  case True
  then obtain p where "current_piece (game w) = Some p" by auto
  from handle_wasd_eq[OF assms _ _ this, of mx mz fxp fzp] True show ?thesis by simp
next
  case False
  then show ?thesis by (auto simp: handle_wasd_def)
qed

text \<open>
  C8. \<open>game_over\<close> becomes true in one place only, the collision test that ends a spawn:
  after a spawn the flag is set iff it was set before or the new current piece collides
  where it stands, and that piece stands at the spawn anchor (X 4, Y 17, Z 4), as does
  every next piece. The rotation and move handlers leave the flag alone, and a tick of
  the timer that finds it unset and leaves it set has gone through a lock whose spawn
  collided, and has switched the mode to \<open>STATE_GAME_OVER\<close>. Once the flag is set, a tick
  changes nothing but the time stamp: no gravity step, whatever the number of ticks. The
  restart clears the flag on an empty grid.
\<close>

theorem game_over_only_by_spawn:
  "(wf_grid (grid s) \<and> spawn_new_piece s shuffled = Inr s' \<longrightarrow>
      (\<exists>c n. current_piece s' = Some c \<and> next_piece s' = Some n \<and>
             position n = (4, 17, 4) \<and>
             (game_over s' \<longleftrightarrow> game_over s \<or> piece_collides s' c) \<and>
             (current_piece s = None \<longrightarrow> position c = (4, 17, 4)) \<and>
             (current_piece s \<noteq> None \<longrightarrow> next_piece s = Some c))) \<and>
   (wf_grid (grid s) \<and> current_piece s = Some p \<longrightarrow>
      (\<exists>s1. keyboard_rotation s k = Inr s1 \<and> game_over s1 = game_over s)) \<and>
   (wf_grid (grid (game w)) \<longrightarrow>
      (\<exists>w1. special_keys w sk fx fz rx rz = Inr w1 \<and> game_over (game w1) = game_over (game w)) \<and>
      (\<exists>w1. handle_wasd w mx mz fxp fzp = Inr w1 \<and> game_over (game w1) = game_over (game w))) \<and>
   (wf_grid (grid (game w)) \<and> \<not> game_over (game w) \<and>
    game_loop w t shuffled = Some (Inr w2) \<and> game_over (game w2) \<longrightarrow>
      current_mode w2 = STATE_GAME_OVER \<and>
      (\<exists>c. next_piece (game w) = Some c \<and> current_piece (game w2) = Some c \<and>
           piece_collides (game w2) c)) \<and>
   (game_over (game w) \<longrightarrow>
      game_loop w t shuffled = Some (Inr (w\<lparr>previous_time := t\<rparr>)) \<and>
      (\<exists>w3. game_loop_run w ticks = Some (Inr w3) \<and> game w3 = game w \<and>
            current_mode w3 = current_mode w \<and>
            time_accumulator_fall w3 = time_accumulator_fall w)) \<and>
   (keyboard_restart w shuffled = Inr w4 \<longrightarrow>
      \<not> game_over (game w4) \<and> current_mode w4 = STATE_PLAYING \<and>
      grid (game w4) = empty_grid \<and> score (game w4) = 0)"
proof -
  have a: "wf_grid (grid s) \<and> spawn_new_piece s shuffled = Inr s' \<longrightarrow>
      (\<exists>c n. current_piece s' = Some c \<and> next_piece s' = Some n \<and>
             position n = (4, 17, 4) \<and>
             (game_over s' \<longleftrightarrow> game_over s \<or> piece_collides s' c) \<and>
             (current_piece s = None \<longrightarrow> position c = (4, 17, 4)) \<and>
             (current_piece s \<noteq> None \<longrightarrow> next_piece s = Some c))"
  proof
    assume h: "wf_grid (grid s) \<and> spawn_new_piece s shuffled = Inr s'"
    then have "(\<exists>j<7. next_piece s' = Some (piece_of j)) \<and>
      (\<exists>c. current_piece s' = Some c \<and> game_over s' = (game_over s \<or> piece_collides s' c) \<and>
         (if current_piece s = None then \<exists>i<7. c = piece_of i
          else next_piece s = Some c))"
      using spawn_new_piece_Inr[of s shuffled s'] by blast
    then obtain j c where "next_piece s' = Some (piece_of j)" "current_piece s' = Some c"
      "game_over s' = (game_over s \<or> piece_collides s' c)"
      "if current_piece s = None then \<exists>i<7. c = piece_of i else next_piece s = Some c"
      by blast
    then show "\<exists>c n. current_piece s' = Some c \<and> next_piece s' = Some n \<and>
             position n = (4, 17, 4) \<and>
             (game_over s' \<longleftrightarrow> game_over s \<or> piece_collides s' c) \<and>
             (current_piece s = None \<longrightarrow> position c = (4, 17, 4)) \<and>
             (current_piece s \<noteq> None \<longrightarrow> next_piece s = Some c)"
      by (auto simp: position_piece_of spawn_position_eq split: if_splits)
  qed
  have b: "wf_grid (grid s) \<and> current_piece s = Some p \<longrightarrow>
      (\<exists>s1. keyboard_rotation s k = Inr s1 \<and> game_over s1 = game_over s)"
  proof
    assume "wf_grid (grid s) \<and> current_piece s = Some p"
    then obtain q where "keyboard_rotation s k = Inr (s\<lparr>current_piece := Some q\<rparr>)"
      using keyboard_rotation_state[of s p k] by blast
    then show "\<exists>s1. keyboard_rotation s k = Inr s1 \<and> game_over s1 = game_over s"
      by simp
  qed
  have c: "wf_grid (grid (game w)) \<longrightarrow>
      (\<exists>w1. special_keys w sk fx fz rx rz = Inr w1 \<and> game_over (game w1) = game_over (game w)) \<and>
      (\<exists>w1. handle_wasd w mx mz fxp fzp = Inr w1 \<and> game_over (game w1) = game_over (game w))"
    using special_keys_state[of w sk fx fz rx rz] handle_wasd_state[of w mx mz fxp fzp]
    by blast
  have d: "wf_grid (grid (game w)) \<and> \<not> game_over (game w) \<and>
    game_loop w t shuffled = Some (Inr w2) \<and> game_over (game w2) \<longrightarrow>
      current_mode w2 = STATE_GAME_OVER \<and>
      (\<exists>c. next_piece (game w) = Some c \<and> current_piece (game w2) = Some c \<and>
           piece_collides (game w2) c)"
    using game_loop_becomes_over[of w t shuffled w2] by blast
  have e: "game_over (game w) \<longrightarrow>
      game_loop w t shuffled = Some (Inr (w\<lparr>previous_time := t\<rparr>)) \<and>
      (\<exists>w3. game_loop_run w ticks = Some (Inr w3) \<and> game w3 = game w \<and>
            current_mode w3 = current_mode w \<and>
            time_accumulator_fall w3 = time_accumulator_fall w)"
    using game_loop_over[of w t shuffled] game_loop_run_over[of w ticks] by blast
  have f: "keyboard_restart w shuffled = Inr w4 \<longrightarrow>
      \<not> game_over (game w4) \<and> current_mode w4 = STATE_PLAYING \<and>
      grid (game w4) = empty_grid \<and> score (game w4) = 0"
    using keyboard_restart_Inr[of w shuffled w4] by blast
  from a b c d e f show ?thesis by (intro conjI)
qed

lemma clear_loop_none_full:
  assumes "grid_is g F" "\<forall>b<20. \<not> full_layer F b"
  shows "clear_loop g 0 0 = Some (Inr (g, 0))"
  using clear_loop_skip[OF assms(1), of 0 20 0] assms(2)
  by (simp add: clear_loop_done)

theorem game_over_only_by_spawn_witness:
  "\<exists>w2. game_loop over_test_world 500 [] = Some (Inr w2) \<and> game_over (game w2) \<and>
        current_mode w2 = STATE_GAME_OVER \<and>
        game_loop w2 1000 [] = Some (Inr (w2\<lparr>previous_time := 1000\<rparr>))"
proof -
  let ?w = over_test_world
  let ?s = "game ?w"
  let ?F1 = "\<lambda>a b c. if (\<exists>(ox, oy, oz) \<in> set (shape I_piece).
                            int a = 4 + ox \<and> int b = 17 + oy \<and> int c = 4 + oz)
                     then Some (color I_piece) else blocked_cell a b c"
  have shape: "shape I_piece = [(0, 0, 0), (1, 0, 0), (2, 0, 0), (3, 0, 0)]"
    and pos: "position I_piece = (4, 17, 4)"
    by (simp_all add: I_piece_def SHAPES_3D_def spawn_position_def GRID_SIZE_defs)
  have g: "grid ?s = grid_of blocked_cell" and cur: "current_piece ?s = Some I_piece"
    and nxt: "next_piece ?s = Some (piece_of 2)"
    and bag: "[3] = (if piece_bag ?s = [] then [] else piece_bag ?s)"
    and no: "\<not> game_over ?s"
    by (simp_all add: over_test_world_def)
  have wf: "wf_grid (grid ?s)"
    unfolding g by (rule grid_is_wf[OF grid_is_grid_of])
  have hit: "piece_collides ?s (move I_piece 0 (- 1) 0)"
    by (simp add: piece_collides_iff g move_def pos shape GRID_SIZE_defs
        grid_get_is[OF grid_is_grid_of] blocked_cell_def)
  from lock_piece_and_clear_next[OF wf cur nxt bag] obtain g1 g2 k s' where
    l: "lock_blocks (position I_piece) (color I_piece) (shape I_piece) (grid ?s) = Inr g1"
      "clear_loop g1 0 0 = Some (Inr (g2, k))"
      "lock_piece_and_clear ?s [] = Some (Inr s')" "grid s' = g2"
      "current_piece s' = Some (piece_of 2)"
      "game_over s' = (game_over ?s \<or> piece_collides s' (piece_of 2))"
    by auto
  from lock_blocks_is[OF grid_is_grid_of[of blocked_cell], of 4 17 4 "color I_piece" "shape I_piece"]
  obtain g1' where g1': "lock_blocks (4, 17, 4) (color I_piece) (shape I_piece) (grid_of blocked_cell) = Inr g1'"
    "grid_is g1' ?F1"
    by blast
  have "g1' = g1" using g1'(1) l(1) by (simp add: g pos)
  with g1'(2) have g1: "grid_is g1 ?F1" by simp
  have "\<forall>b<20. \<not> full_layer ?F1 b"
  proof (intro allI impI)
    fix b :: nat
    have "?F1 0 b 0 = None" by (auto simp: shape blocked_cell_def)
    then show "\<not> full_layer ?F1 b"
      unfolding full_layer_def by (intro notI) (metis zero_less_numeral)
  qed
  from clear_loop_none_full[OF g1 this] l(2) have g2: "g2 = g1" by simp
  have "piece_collides s' (piece_of 2)"
    by (simp add: piece_collides_iff l(4) g2 piece_of_def SHAPES_3D_def spawn_position_def
        GRID_SIZE_defs grid_get_is[OF g1] shape del: not_None_eq)
  with l(6) have over: "game_over s'" by simp
  let ?w3 = "?w\<lparr>previous_time := 500, time_accumulator_fall := 0\<rparr>"
  let ?w2 = "set_mode STATE_GAME_OVER (?w3\<lparr>game := s'\<rparr>)"
  have "game_loop ?w 500 [] = gravity_step ?w3 []"
    by (simp add: game_loop_def Let_def FALL_INTERVAL_MS_def over_test_world_def)
  also have "\<dots> = Some (Inr ?w2)"
    using gravity_step_lock[of ?w3 I_piece "[]"] wf cur hit l(3) over by simp
  finally have run: "game_loop ?w 500 [] = Some (Inr ?w2)" .
  have over2: "game_over (game ?w2)"
    using over by (simp add: set_mode_game_over)
  note main = game_over_only_by_spawn[where w = ?w and t = 500 and shuffled = "[]"
      and ?w2.0 = ?w2]
  from main[THEN conjunct2, THEN conjunct2, THEN conjunct2, THEN conjunct1] wf no run over2
  have mode: "current_mode ?w2 = STATE_GAME_OVER" by blast
  from game_over_only_by_spawn[where w = ?w2 and t = 1000 and shuffled = "[]",
      THEN conjunct2, THEN conjunct2, THEN conjunct2, THEN conjunct2, THEN conjunct1] over2
  have still: "game_loop ?w2 1000 [] = Some (Inr (?w2\<lparr>previous_time := 1000\<rparr>))" by blast
  from run over2 mode still show ?thesis by blast
qed

section \<open>The current piece of a running game never collides\<close>

lemma playing_ok_restart:
  assumes "keyboard_restart w shuffled = Inr w'"
  shows "playing_ok w'"
proof -
  let ?s0 = "(reset_grid (game w))\<lparr>score := 0, game_over := False, current_piece := None,
                                     next_piece := None\<rparr>"
  from assms obtain s1 where s1: "spawn_new_piece ?s0 shuffled = Inr s1"
    and w': "w' = set_mode STATE_PLAYING (w\<lparr>game := s1\<lparr>is_new_highscore := False\<rparr>\<rparr>)"
    by (auto simp: keyboard_restart_def rbind_def split: sum.splits)
  have g0: "grid ?s0 = empty_grid" "current_piece ?s0 = None"
    by (simp_all add: reset_grid_def)
  have wf: "wf_grid (grid ?s0)" using g0(1) wf_empty_grid by simp
  from spawn_new_piece_Inr[OF wf s1] g0 obtain c i where
    c: "grid s1 = empty_grid" "current_piece s1 = Some c" "i < 7" "c = piece_of i"
    by auto
  from piece_of_free[OF c(3) c(1)] c w' show ?thesis
    by (simp add: playing_ok_def set_mode_def wf_empty_grid piece_collides_iff)
qed

lemma playing_ok_gravity_step:
  assumes "playing_ok w" "gravity_step w shuffled = Some (Inr w')"
  shows "playing_ok w'"
proof (cases "current_piece (game w)")
  case None
  with assms show ?thesis by (simp add: gravity_step_def)
next
  case (Some p)
  have wf: "wf_grid (grid (game w))" using assms(1) by (simp add: playing_ok_def)
  show ?thesis
  proof (cases "piece_collides (game w) (move p 0 (- 1) 0)")
    case False
    from gravity_step_move[OF wf Some False, of shuffled] assms(2) wf False
    show ?thesis by (auto simp: playing_ok_def)
  next
    case True
    from lock_piece_and_clear_eq[OF wf Some, of shuffled] obtain g2 k where
      l: "wf_grid g2"
        "lock_piece_and_clear (game w) shuffled =
             Some (spawn_new_piece
                     ((game w)\<lparr>grid := g2, last_piece := Some p,
                        score := score (game w) + (if k > 0 then layer_score k else 0) +
                                 int (length (shape p)) * 10\<rparr>) shuffled)"
      by blast
    let ?s3 = "(game w)\<lparr>grid := g2, last_piece := Some p,
                        score := score (game w) + (if k > 0 then layer_score k else 0) +
                                 int (length (shape p)) * 10\<rparr>"
    from gravity_step_lock[OF wf Some True, of shuffled] assms(2) l(2)
    obtain s2 where s2: "spawn_new_piece ?s3 shuffled = Inr s2"
      "w' = (if game_over s2 then set_mode STATE_GAME_OVER (w\<lparr>game := s2\<rparr>) else w\<lparr>game := s2\<rparr>)"
      by (auto split: sum.splits)
    have wf3: "wf_grid (grid ?s3)" using l(1) by simp
    from spawn_new_piece_Inr[OF wf3 s2(1)] obtain c where
      c: "grid s2 = g2" "current_piece s2 = Some c"
        "game_over s2 = (game_over ?s3 \<or> piece_collides s2 c)"
      by auto
    show ?thesis
    proof (cases "game_over s2")
      case True
      with s2(2) c(1) l(1) show ?thesis
        by (simp add: playing_ok_def set_mode_game_over)
    next
      case False
      with s2(2) c l(1) show ?thesis
        by (simp add: playing_ok_def)
    qed
  qed
qed

lemma playing_ok_game_loop:
  assumes "playing_ok w" "game_loop w t shuffled = Some (Inr w')"
  shows "playing_ok w'"
proof -
  let ?acc = "time_accumulator_fall w + (t - previous_time w)"
  let ?w3 = "w\<lparr>previous_time := t, time_accumulator_fall := ?acc - 500\<rparr>"
  have ok3: "playing_ok ?w3" using assms(1) by (simp add: playing_ok_def)
  from assms(2) have "gravity_step ?w3 shuffled = Some (Inr w') \<or>
      w' = w\<lparr>previous_time := t\<rparr> \<or> w' = w\<lparr>previous_time := t, time_accumulator_fall := ?acc\<rparr>"
    by (auto simp: game_loop_def Let_def FALL_INTERVAL_MS_def split: if_splits)
  then show ?thesis
    using playing_ok_gravity_step[OF ok3] assms(1) by (auto simp: playing_ok_def)
qed

lemma playing_ok_handlers:
  assumes "playing_ok w"
  shows "current_piece (game w) = Some p \<Longrightarrow> \<not> game_over (game w) \<Longrightarrow>
           keyboard_rotation (game w) k = Inr s' \<Longrightarrow> playing_ok (w\<lparr>game := s'\<rparr>)"
    and "special_keys w sk fx fz rx rz = Inr w1 \<Longrightarrow> playing_ok w1"
    and "handle_wasd w mx mz fxp fzp = Inr w2 \<Longrightarrow> playing_ok w2"
proof -
  have wf: "wf_grid (grid (game w))" using assms by (simp add: playing_ok_def)
  {
    assume p: "current_piece (game w) = Some p" and no: "\<not> game_over (game w)"
      and r: "keyboard_rotation (game w) k = Inr s'"
    from p no assms have free: "\<not> piece_collides (game w) p" by (simp add: playing_ok_def)
    from r free wf show "playing_ok (w\<lparr>game := s'\<rparr>)"
      unfolding keyboard_rotation_eq[OF wf p]
      by (auto simp: playing_ok_def Let_def split: if_splits)
  }
  {
    assume r: "special_keys w sk fx fz rx rz = Inr w1"
    show "playing_ok w1"
    proof (cases "current_mode w = STATE_PLAYING \<and> \<not> game_over (game w) \<and>
              current_piece (game w) \<noteq> None")
      case True
      then obtain p where p: "current_piece (game w) = Some p" by auto
      with True assms have free: "\<not> piece_collides (game w) p" by (simp add: playing_ok_def)
      from True have m: "current_mode w = STATE_PLAYING" and n: "\<not> game_over (game w)"
        by simp_all
      from r free wf True show ?thesis
        unfolding special_keys_eq[OF wf m n p, of sk fx fz rx rz]
        by (auto simp: playing_ok_def Let_def split: if_splits)
    next
      case False
      with r assms show ?thesis by (auto simp: special_keys_def)
    qed
  }
  {
    assume r: "handle_wasd w mx mz fxp fzp = Inr w2"
    show "playing_ok w2"
    proof (cases "current_mode w = STATE_PLAYING \<and> \<not> game_over (game w) \<and>
              current_piece (game w) \<noteq> None")
      case True
      then obtain p where p: "current_piece (game w) = Some p" by auto
      with True assms have free: "\<not> piece_collides (game w) p" by (simp add: playing_ok_def)
      from True have m: "current_mode w = STATE_PLAYING" and n: "\<not> game_over (game w)"
        by simp_all
      from r free wf True show ?thesis
        unfolding handle_wasd_eq[OF wf m n p, of mx mz fxp fzp]
        by (auto simp: playing_ok_def Let_def split: if_splits)
    next
      case False
      with r assms show ?thesis by (auto simp: handle_wasd_def)
    qed
  }
qed

end
